theory Spec2Isabelle
  imports Complex_Main "HOL-Library.Log_Nat" "HOL-Library.Word"
begin

section \<open>Python floats: IEEE 754 binary64 with round-to-nearest-even\<close>

text \<open>
  \<^verbatim>\<open>create_test_pngs.py\<close> computes every channel value and every marker position
  with Python \<^verbatim>\<open>float\<close>s. A finite double is a rational, so a double is modelled as
  the \<^typ>\<open>rat\<close> it denotes, and every arithmetic operation is the exact operation followed
  by rounding to the nearest double, ties to the even significand (\<open>rnd\<close>).
  All magnitudes that occur in the script are either zero or between \<open>1 / 1024\<close> and
  \<open>1024\<close>, far from the overflow and subnormal ranges, so the exponent is left unbounded.

  \<open>expo q\<close> is the binary exponent of \<open>q\<close>: \<open>2 powi expo q \<le> \<bar>q\<bar> < 2 powi (expo q + 1)\<close>
  (lemmas \<open>expo_lower\<close>, \<open>expo_upper\<close>), computed from bit lengths.
\<close>

definition expo :: "rat \<Rightarrow> int" where
  "expo q = (if 1 \<le> \<bar>q\<bar> then bitlen \<lfloor>\<bar>q\<bar>\<rfloor> - 1 else - bitlen (\<lceil>1 / \<bar>q\<bar>\<rceil> - 1))"

definition round_half_even :: "rat \<Rightarrow> int" where
  "round_half_even q = (let f = \<lfloor>q\<rfloor>; r = q - of_int f
     in if r < 1 / 2 then f else if 1 / 2 < r then f + 1 else if even f then f else f + 1)"

text \<open>Rounding to 53 significant bits.\<close>

definition rnd :: "rat \<Rightarrow> rat" where
  "rnd q = (if q = 0 then 0
            else let s = 2 powi (expo q - 52) in of_int (round_half_even (q / s)) * s)"

text \<open>
  \<^verbatim>\<open>a / b\<close>, \<^verbatim>\<open>a * b\<close> and \<^verbatim>\<open>a - b\<close> on floats (an \<^verbatim>\<open>int\<close> operand is converted
  exactly, all integers of the script being far below \<open>2 ^ 53\<close>; \<^verbatim>\<open>int / int\<close> is
  Python's correctly rounded true division). Every divisor in the script is one of the
  non-zero constants \<open>29.0\<close>, \<open>405\<close>, \<open>720\<close> and \<open>30\<close>, so \<^verbatim>\<open>ZeroDivisionError\<close> cannot
  be raised.
\<close>

definition fl_div :: "rat \<Rightarrow> rat \<Rightarrow> rat" where
  "fl_div a b = rnd (a / b)"

definition fl_mul :: "rat \<Rightarrow> rat \<Rightarrow> rat" where
  "fl_mul a b = rnd (a * b)"

definition fl_sub :: "rat \<Rightarrow> rat \<Rightarrow> rat" where
  "fl_sub a b = rnd (a - b)"

text \<open>The float literal \<^verbatim>\<open>0.8\<close> is the double nearest to \<open>8 / 10\<close>.\<close>

definition lit_0_8 :: rat where
  "lit_0_8 = rnd (8 / 10)"

text \<open>\<^verbatim>\<open>int(f)\<close> truncates towards zero.\<close>

definition py_int :: "rat \<Rightarrow> int" where
  "py_int q = (if 0 \<le> q then \<lfloor>q\<rfloor> else \<lceil>q\<rceil>)"

section \<open>The pixel buffer\<close>

text \<open>
  \<^verbatim>\<open>np.zeros((height, width, 4), dtype=np.uint8)\<close> is a three-dimensional array of
  bytes, indexed \<^verbatim>\<open>frame[y, x, c]\<close>: a list of rows, a row a list of pixels, a pixel a
  list of channels. An index outside the array raises \<^verbatim>\<open>IndexError\<close>, and assigning a
  list of the wrong length to a pixel raises \<^verbatim>\<open>ValueError\<close>. Storing a Python integer
  into a \<^verbatim>\<open>uint8\<close> cell keeps its low eight bits (\<open>word_of_int\<close>).
\<close>

datatype py_error = IndexError | ValueError

type_synonym pixel = "8 word list"

type_synonym frame = "pixel list list"

definition np_zeros :: "nat \<Rightarrow> nat \<Rightarrow> nat \<Rightarrow> frame" where
  "np_zeros h w c = replicate h (replicate w (replicate c 0))"

text \<open>\<^verbatim>\<open>frame[y, x, c] = v\<close>\<close>

definition set_channel :: "frame \<Rightarrow> nat \<Rightarrow> nat \<Rightarrow> nat \<Rightarrow> int \<Rightarrow> py_error + frame" where
  "set_channel fr y x c v =
     (if y < length fr \<and> x < length (fr ! y) \<and> c < length (fr ! y ! x)
      then Inr (fr[y := (fr ! y)[x := (fr ! y ! x)[c := word_of_int v]]])
      else Inl IndexError)"

text \<open>\<^verbatim>\<open>frame[y, x] = [v0, v1, v2, v3]\<close>\<close>

definition set_pixel :: "frame \<Rightarrow> nat \<Rightarrow> nat \<Rightarrow> int list \<Rightarrow> py_error + frame" where
  "set_pixel fr y x vs =
     (if y < length fr \<and> x < length (fr ! y)
      then if length vs = length (fr ! y ! x)
           then Inr (fr[y := (fr ! y)[x := map word_of_int vs]])
           else Inl ValueError
      else Inl IndexError)"

text \<open>Sequencing of steps that may raise, and the \<^verbatim>\<open>for\<close> loop over a range.\<close>

definition then_do :: "py_error + 'a \<Rightarrow> ('a \<Rightarrow> py_error + 'b) \<Rightarrow> py_error + 'b" where
  "then_do m f = (case m of Inl e \<Rightarrow> Inl e | Inr a \<Rightarrow> f a)"

fun for_each :: "'a list \<Rightarrow> ('a \<Rightarrow> 's \<Rightarrow> py_error + 's) \<Rightarrow> 's \<Rightarrow> py_error + 's" where
  "for_each [] body s = Inr s"
| "for_each (a # as) body s = then_do (body a s) (for_each as body)"

section \<open>\<^verbatim>\<open>create_test_frames\<close>: one frame\<close>

definition width :: nat where
  "width = 405"

definition height :: nat where
  "height = 720"

text \<open>\<^verbatim>\<open>time_factor = i / 29.0\<close>\<close>

definition time_factor :: "nat \<Rightarrow> rat" where
  "time_factor i = fl_div (of_nat i) 29"

text \<open>\<^verbatim>\<open>int(255 * (x / width) * (1 - time_factor))\<close>\<close>

definition red_of :: "rat \<Rightarrow> nat \<Rightarrow> int" where
  "red_of tf x = py_int (fl_mul (fl_mul 255 (fl_div (of_nat x) (of_nat width))) (fl_sub 1 tf))"

text \<open>\<^verbatim>\<open>int(255 * (y / height) * time_factor)\<close>\<close>

definition green_of :: "rat \<Rightarrow> nat \<Rightarrow> int" where
  "green_of tf y = py_int (fl_mul (fl_mul 255 (fl_div (of_nat y) (of_nat height))) tf)"

text \<open>\<^verbatim>\<open>int(255 * time_factor)\<close>\<close>

definition blue_of :: "rat \<Rightarrow> int" where
  "blue_of tf = py_int (fl_mul 255 tf)"

text \<open>The body of the two gradient loops: four channel stores for the pixel at \<open>(y, x)\<close>.\<close>

definition paint_pixel :: "rat \<Rightarrow> nat \<Rightarrow> nat \<Rightarrow> frame \<Rightarrow> py_error + frame" where
  "paint_pixel tf y x fr =
     then_do (set_channel fr y x 0 (red_of tf x)) (\<lambda>fr.
     then_do (set_channel fr y x 1 (green_of tf y)) (\<lambda>fr.
     then_do (set_channel fr y x 2 (blue_of tf)) (\<lambda>fr.
     set_channel fr y x 3 255)))"

definition paint_gradient :: "rat \<Rightarrow> frame \<Rightarrow> py_error + frame" where
  "paint_gradient tf = for_each [0..<height] (\<lambda>y. for_each [0..<width] (\<lambda>x. paint_pixel tf y x))"

text \<open>
  \<^verbatim>\<open>ant_x = int((width * 0.8) * ((i + ant * 3) % 30) / 30) + 50\<close> and
  \<^verbatim>\<open>ant_y = int((height * 0.8) * ((i + ant * 2) % 30) / 30) + 50\<close>
\<close>

definition ant_x :: "nat \<Rightarrow> nat \<Rightarrow> int" where
  "ant_x i ant =
     py_int (fl_div (fl_mul (fl_mul (of_nat width) lit_0_8) (of_nat ((i + ant * 3) mod 30))) 30) + 50"

definition ant_y :: "nat \<Rightarrow> nat \<Rightarrow> int" where
  "ant_y i ant =
     py_int (fl_div (fl_mul (fl_mul (of_nat height) lit_0_8) (of_nat ((i + ant * 2) mod 30))) 30) + 50"

text \<open>The bounds check \<^verbatim>\<open>0 <= ant_x + dx < width and 0 <= ant_y + dy < height\<close>.\<close>

definition in_bounds :: "int \<Rightarrow> int \<Rightarrow> bool" where
  "in_bounds px py \<longleftrightarrow> 0 \<le> px \<and> px < int width \<and> 0 \<le> py \<and> py < int height"

definition draw_ant_pixel :: "int \<Rightarrow> int \<Rightarrow> int \<Rightarrow> int \<Rightarrow> frame \<Rightarrow> py_error + frame" where
  "draw_ant_pixel ax ay dy dx fr =
     (if in_bounds (ax + dx) (ay + dy)
      then set_pixel fr (nat (ay + dy)) (nat (ax + dx)) [255, 255, 0, 255]
      else Inr fr)"

definition draw_ant :: "nat \<Rightarrow> nat \<Rightarrow> frame \<Rightarrow> py_error + frame" where
  "draw_ant i ant =
     (let ax = ant_x i ant; ay = ant_y i ant
      in for_each [-2..2] (\<lambda>dy. for_each [-2..2] (\<lambda>dx. draw_ant_pixel ax ay dy dx)))"

definition draw_ants :: "nat \<Rightarrow> frame \<Rightarrow> py_error + frame" where
  "draw_ants i = for_each [0..<10] (\<lambda>ant. draw_ant i ant)"

text \<open>One iteration of the outer loop, up to the finished pixel buffer.\<close>

definition render_frame :: "nat \<Rightarrow> py_error + frame" where
  "render_frame i =
     then_do (paint_gradient (time_factor i) (np_zeros height width 4)) (draw_ants i)"

text \<open>
  A pixel is overwritten by a marker when some iteration of the marker loops passes the
  bounds check and stores at its coordinates.
\<close>

definition covered :: "nat \<Rightarrow> nat \<Rightarrow> nat \<Rightarrow> bool" where
  "covered i y x \<longleftrightarrow>
     (\<exists>ant \<in> set [0..<10]. \<exists>dy \<in> set [-2..2]. \<exists>dx \<in> set [-2..2].
        in_bounds (ant_x i ant + dx) (ant_y i ant + dy) \<and>
        y = nat (ant_y i ant + dy) \<and> x = nat (ant_x i ant + dx))"

text \<open>The pixel at column \<open>x\<close> of row \<open>y\<close> of frame \<open>i\<close>, when the frame is produced.\<close>

definition frame_pixel :: "nat \<Rightarrow> nat \<Rightarrow> nat \<Rightarrow> pixel option" where
  "frame_pixel i y x = (case render_frame i of Inl e \<Rightarrow> None | Inr fr \<Rightarrow> Some (fr ! y ! x))"

section \<open>\<^verbatim>\<open>create_test_frames\<close>: the files\<close>

text \<open>
  The file system holds directories and files; a PNG file is modelled by the RGBA image
  it encodes (PNG is lossless, and the encoder is not part of the script). Console
  output is a list of lines. Failures of the operating system (a path that cannot be
  created or written) are outside the model: a run is a run that completes.
\<close>

record world =
  dirs :: "string set"
  files :: "string \<rightharpoonup> frame"
  stdout :: "string list"

definition frames_dir :: string where
  "frames_dir = ''simulation_videos/test_png_frames''"

text \<open>\<^verbatim>\<open>os.makedirs(frames_dir, exist_ok=True)\<close> creates the directory and its parent.\<close>

definition makedirs :: "world \<Rightarrow> world" where
  "makedirs w = w\<lparr>dirs := dirs w \<union> {''simulation_videos'', frames_dir}\<rparr>"

text \<open>Decimal digits of a natural number, and the format \<^verbatim>\<open>{i:04d}\<close>.\<close>

fun dec :: "nat \<Rightarrow> string" where
  "dec n = (if n < 10 then [''0123456789'' ! n] else dec (n div 10) @ [''0123456789'' ! (n mod 10)])"

declare dec.simps [simp del]

definition fmt_04d :: "nat \<Rightarrow> string" where
  "fmt_04d i = replicate (4 - length (dec i)) CHR ''0'' @ dec i"

definition frame_name :: "nat \<Rightarrow> string" where
  "frame_name i = ''frame_'' @ fmt_04d i @ ''.png''"

definition frame_path :: "nat \<Rightarrow> string" where
  "frame_path i = frames_dir @ ''/'' @ frame_name i"

text \<open>
  \<^verbatim>\<open>Image.fromarray(frame, 'RGBA').save(path)\<close> followed by
  \<^verbatim>\<open>print(f"Created frame_{i:04d}.png")\<close>.
\<close>

definition save_frame :: "nat \<Rightarrow> frame \<Rightarrow> world \<Rightarrow> world" where
  "save_frame i fr w =
     w\<lparr>files := (files w)(frame_path i \<mapsto> fr), stdout := stdout w @ [''Created '' @ frame_name i]\<rparr>"

definition frame_step :: "nat \<Rightarrow> world \<Rightarrow> py_error + world" where
  "frame_step i w = then_do (render_frame i) (\<lambda>fr. Inr (save_frame i fr w))"

text \<open>The check mark of the closing message is the three bytes of its UTF-8 encoding.\<close>

definition done_line :: string where
  "done_line = [CHR 0xE2, CHR 0x9C, CHR 0x85] @ '' Created '' @ dec 30 @ '' test PNG frames in '' @ frames_dir"

definition create_test_frames :: "world \<Rightarrow> py_error + world \<times> string" where
  "create_test_frames w =
     then_do (for_each [0..<30] frame_step (makedirs w)) (\<lambda>w.
     Inr (w\<lparr>stdout := stdout w @ [done_line]\<rparr>, frames_dir))"

text \<open>
  Proof device: a step \<open>f\<close> \<^emph>\<open>paints\<close> the set \<open>S\<close> with the colouring \<open>c\<close> when, on a
  buffer of the right shape, it raises nothing, keeps the shape, stores \<open>c y x\<close> at the
  pixels of \<open>S\<close> and leaves every other pixel as it was.
\<close>

definition shape_ok :: "frame \<Rightarrow> bool" where
  "shape_ok fr \<longleftrightarrow>
     length fr = height \<and>
     (\<forall>y < height. length (fr ! y) = width \<and> (\<forall>x < width. length (fr ! y ! x) = 4))"

definition paints :: "(frame \<Rightarrow> py_error + frame) \<Rightarrow> (nat \<times> nat) set \<Rightarrow> (nat \<Rightarrow> nat \<Rightarrow> pixel) \<Rightarrow> bool" where
  "paints f S c \<longleftrightarrow>
     (\<forall>fr. shape_ok fr \<longrightarrow>
        (\<exists>fr'. f fr = Inr fr' \<and> shape_ok fr' \<and>
           (\<forall>y < height. \<forall>x < width. fr' ! y ! x = (if (y, x) \<in> S then c y x else fr ! y ! x))))"

section \<open>Properties of rounding\<close>

lemma expo_lower: assumes "q \<noteq> 0" shows "2 powi (expo q) \<le> \<bar>q\<bar>"
proof (cases "1 \<le> \<bar>q\<bar>")
  case True
  define n where "n = \<lfloor>\<bar>q\<bar>\<rfloor>"
  have n: "1 \<le> n" using True by (simp add: n_def le_floor_iff)
  then have b: "1 \<le> bitlen n" by (auto simp: bitlen_alt_def)
  have "(2::int) ^ nat (bitlen n - 1) \<le> n" using bitlen_bounds[of n] n by simp
  then have "(2::rat) ^ nat (bitlen n - 1) \<le> of_int n" by simp
  also have "\<dots> \<le> \<bar>q\<bar>" by (simp add: n_def)
  finally show ?thesis using True b by (simp add: expo_def n_def[symmetric] power_int_def)
next
  case False
  define c where "c = \<lceil>1 / \<bar>q\<bar>\<rceil>"
  define t where "t = bitlen (c - 1)"
  have q: "0 < \<bar>q\<bar>" "\<bar>q\<bar> < 1" using assms False by auto
  then have r: "1 < 1 / \<bar>q\<bar>" by (simp add: field_simps)
  then have c: "2 \<le> c" unfolding c_def by (simp add: le_ceiling_iff)
  then have "c - 1 < 2 ^ nat t" using bitlen_bounds[of "c - 1"] by (simp add: t_def)
  then have "c \<le> 2 ^ nat t" by simp
  then have "rat_of_int c \<le> 2 ^ nat t" by simp
  moreover have "1 / \<bar>q\<bar> \<le> of_int c" by (simp add: c_def)
  ultimately have "1 / \<bar>q\<bar> \<le> 2 ^ nat t" by linarith
  then have "1 / 2 ^ nat t \<le> \<bar>q\<bar>" using q by (simp add: field_simps)
  moreover have "2 powi (- t) = (1::rat) / 2 ^ nat t"
    by (simp add: power_int_minus_divide power_int_nonneg_exp t_def bitlen_nonneg)
  ultimately show ?thesis using False
    by (simp add: expo_def c_def[symmetric] t_def[symmetric])
qed

lemma expo_upper: assumes "q \<noteq> 0" shows "\<bar>q\<bar> < 2 powi (expo q + 1)"
proof (cases "1 \<le> \<bar>q\<bar>")
  case True
  define n where "n = \<lfloor>\<bar>q\<bar>\<rfloor>"
  have n: "1 \<le> n" using True by (simp add: n_def le_floor_iff)
  then have b: "1 \<le> bitlen n" by (auto simp: bitlen_alt_def)
  have "n < 2 ^ nat (bitlen n)" using bitlen_bounds[of n] n by simp
  then have "n + 1 \<le> 2 ^ nat (bitlen n)" by simp
  then have "rat_of_int (n + 1) \<le> 2 ^ nat (bitlen n)" by (simp del: of_int_add)
  moreover have "\<bar>q\<bar> < of_int (n + 1)" unfolding n_def by linarith
  ultimately have "\<bar>q\<bar> < 2 ^ nat (bitlen n)" by linarith
  then show ?thesis using True b by (simp add: expo_def n_def[symmetric] power_int_def)
next
  case False
  define c where "c = \<lceil>1 / \<bar>q\<bar>\<rceil>"
  define t where "t = bitlen (c - 1)"
  have q: "0 < \<bar>q\<bar>" "\<bar>q\<bar> < 1" using assms False by auto
  then have r: "1 < 1 / \<bar>q\<bar>" by (simp add: field_simps)
  then have c: "2 \<le> c" unfolding c_def by (simp add: le_ceiling_iff)
  then have t: "1 \<le> t" by (auto simp: t_def bitlen_alt_def)
  have "2 ^ nat (t - 1) \<le> c - 1" using bitlen_bounds[of "c - 1"] c by (simp add: t_def)
  then have "(2::rat) ^ nat (t - 1) \<le> of_int (c - 1)" by (simp del: of_int_diff)
  moreover have "of_int (c - 1) < 1 / \<bar>q\<bar>" unfolding c_def by linarith
  ultimately have "2 ^ nat (t - 1) < 1 / \<bar>q\<bar>" by linarith
  then have "\<bar>q\<bar> < 1 / 2 ^ nat (t - 1)" using q by (simp add: field_simps)
  moreover have "2 powi (- t + 1) = (1::rat) / 2 ^ nat (t - 1)"
    using t by (cases "t = 1") (simp_all add: power_int_def field_simps)
  ultimately show ?thesis using False
    by (simp add: expo_def c_def[symmetric] t_def[symmetric])
qed


lemma rhe_cases:
  "round_half_even q = \<lfloor>q\<rfloor> \<or> round_half_even q = \<lfloor>q\<rfloor> + 1"
  by (simp add: round_half_even_def Let_def)

lemma rhe_of_int [simp]: "round_half_even (of_int n) = n"
  by (simp add: round_half_even_def)

lemma rhe_err: "\<bar>of_int (round_half_even q) - q\<bar> \<le> 1 / 2"
proof -
  have "of_int \<lfloor>q\<rfloor> \<le> q" "q < of_int \<lfloor>q\<rfloor> + 1" by linarith+
  then show ?thesis by (auto simp: round_half_even_def Let_def abs_le_iff)
qed

lemma rhe_mono: assumes "a \<le> b" shows "round_half_even a \<le> round_half_even b"
proof (cases "\<lfloor>a\<rfloor> = \<lfloor>b\<rfloor>")
  case True
  with assms show ?thesis by (auto simp: round_half_even_def Let_def)
next
  case False
  with assms have "\<lfloor>a\<rfloor> + 1 \<le> \<lfloor>b\<rfloor>" using floor_mono[of a b] by linarith
  moreover have "round_half_even a \<le> \<lfloor>a\<rfloor> + 1" using rhe_cases[of a] by auto
  moreover have "\<lfloor>b\<rfloor> \<le> round_half_even b" using rhe_cases[of b] by auto
  ultimately show ?thesis by linarith
qed

lemma rhe_minus: "round_half_even (- q) = - round_half_even q"
proof (cases "q = of_int \<lfloor>q\<rfloor>")
  case True
  then have "round_half_even (- of_int \<lfloor>q\<rfloor>) = - round_half_even (of_int \<lfloor>q\<rfloor>)"
    unfolding of_int_minus[symmetric] rhe_of_int by simp
  with True show ?thesis by simp
next
  case False
  define f where "f = \<lfloor>q\<rfloor>"
  define r where "r = q - of_int f"
  have "\<lceil>q\<rceil> = f + 1" using False by (simp add: ceiling_altdef f_def)
  then have f': "\<lfloor>- q\<rfloor> = - f - 1" by (simp add: ceiling_def)
  have r': "- q - of_int (- f - 1) = 1 - r" by (simp add: r_def)
  have ev: "even (- f - 1) \<longleftrightarrow> odd f" by simp
  have a: "round_half_even q = (if r < 1 / 2 then f else if 1 / 2 < r then f + 1 else if even f then f else f + 1)"
    by (simp add: round_half_even_def Let_def f_def r_def)
  have b: "round_half_even (- q) = (if 1 - r < 1 / 2 then - f - 1 else if 1 / 2 < 1 - r then - f else if odd f then - f - 1 else - f)"
    unfolding round_half_even_def Let_def f' r' ev by simp
  show ?thesis unfolding a b by (simp add: field_simps)
qed


lemma expo_minus [simp]: "expo (- q) = expo q"
  by (simp add: expo_def)

lemma rnd_0 [simp]: "rnd 0 = 0"
  by (simp add: rnd_def)

lemma rnd_minus: "rnd (- q) = - rnd q"
  by (simp add: rnd_def Let_def rhe_minus)

lemma p2_pos [simp]: "0 < (2::rat) powi k"
  by simp

lemma p2_le_D: assumes "(2::rat) powi a < 2 powi b" shows "a < b"
proof (rule ccontr)
  assume "\<not> a < b"
  then have "(2::rat) powi b \<le> 2 powi a" by (intro power_int_increasing) auto
  with assms show False by simp
qed

lemma expo_unique:
  assumes "2 powi e \<le> \<bar>q\<bar>" and "\<bar>q\<bar> < 2 powi (e + 1)"
  shows "expo q = e"
proof -
  have "0 < \<bar>q\<bar>" using assms(1) p2_pos[of e] by linarith
  then have q: "q \<noteq> 0" by auto
  have "(2::rat) powi (expo q) < 2 powi (e + 1)"
    using expo_lower[OF q] assms(2) by linarith
  then have "expo q < e + 1" by (rule p2_le_D)
  moreover have "(2::rat) powi e < 2 powi (expo q + 1)"
    using expo_upper[OF q] assms(1) by linarith
  then have "e < expo q + 1" by (rule p2_le_D)
  ultimately show ?thesis by simp
qed

lemma p2_split: "(2::rat) powi e = 2 ^ 52 * 2 powi (e - 52)"
proof -
  have "(2::rat) powi e = 2 powi (52 + (e - 52))" by simp
  also have "\<dots> = 2 powi 52 * 2 powi (e - 52)" by (subst power_int_add) simp_all
  finally show ?thesis by simp
qed

lemma p2_Suc: "(2::rat) powi (e + 1) = 2 * 2 powi e"
  by (subst power_int_add) simp_all

text \<open>The scaled significand of a positive value lies in [2^52, 2^53).\<close>

lemma scaled_range:
  assumes "0 < q"
  shows "2 ^ 52 \<le> q / 2 powi (expo q - 52)" and "q / 2 powi (expo q - 52) < 2 ^ 53"
proof -
  have q: "q \<noteq> 0" "\<bar>q\<bar> = q" using assms by auto
  let ?s = "(2::rat) powi (expo q - 52)"
  have s: "0 < ?s" by simp
  have "2 ^ 52 * ?s \<le> q" using expo_lower[OF q(1)] q(2) p2_split[of "expo q"] by simp
  then show "2 ^ 52 \<le> q / ?s" using s by (simp add: pos_le_divide_eq)
  have "q < 2 * (2 ^ 52 * ?s)" using expo_upper[OF q(1)] q(2) p2_split[of "expo q"] p2_Suc[of "expo q"] by simp
  then show "q / ?s < 2 ^ 53" using s by (simp add: pos_divide_less_eq)
qed

lemma rhe_scaled_range:
  assumes "0 < q"
  shows "2 ^ 52 \<le> round_half_even (q / 2 powi (expo q - 52))"
    and "round_half_even (q / 2 powi (expo q - 52)) \<le> 2 ^ 53"
proof -
  let ?m = "q / 2 powi (expo q - 52)"
  have "round_half_even (of_int (2 ^ 52)) \<le> round_half_even ?m"
    using scaled_range(1)[OF assms] by (intro rhe_mono) simp
  then show "2 ^ 52 \<le> round_half_even ?m" unfolding rhe_of_int .
  have "round_half_even ?m \<le> round_half_even (of_int (2 ^ 53))"
    using scaled_range(2)[OF assms] by (intro rhe_mono) simp
  then show "round_half_even ?m \<le> 2 ^ 53" unfolding rhe_of_int .
qed

lemma rnd_range:
  assumes "0 < q"
  shows "2 powi (expo q) \<le> rnd q" and "rnd q \<le> 2 powi (expo q + 1)"
proof -
  let ?s = "(2::rat) powi (expo q - 52)"
  let ?M = "round_half_even (q / ?s)"
  have r: "rnd q = of_int ?M * ?s" using assms by (simp add: rnd_def Let_def)
  have s: "0 < ?s" by simp
  have "rat_of_int (2 ^ 52) \<le> of_int ?M" using rhe_scaled_range(1)[OF assms] by (simp only: of_int_le_iff)
  then have "2 ^ 52 * ?s \<le> of_int ?M * ?s" using s by (simp add: mult_right_mono)
  then show "2 powi (expo q) \<le> rnd q" unfolding r by (subst p2_split) simp
  have "rat_of_int ?M \<le> of_int (2 ^ 53)" using rhe_scaled_range(2)[OF assms] by (simp only: of_int_le_iff)
  then have "of_int ?M * ?s \<le> 2 ^ 53 * ?s" using s by (simp add: mult_right_mono)
  then show "rnd q \<le> 2 powi (expo q + 1)" unfolding r p2_Suc by (subst p2_split) simp
qed

lemma rnd_pos: "0 < q \<Longrightarrow> 0 < rnd q"
  using rnd_range(1)[of q] p2_pos[of "expo q"] by linarith

lemma rnd_mono_pos:
  assumes "0 < a" and "a \<le> b"
  shows "rnd a \<le> rnd b"
proof -
  have b: "0 < b" using assms by simp
  have "(2::rat) powi (expo a) < 2 powi (expo b + 1)"
    using expo_lower[of a] expo_upper[of b] assms by simp
  then have le: "expo a \<le> expo b" using p2_le_D by fastforce
  show ?thesis
  proof (cases "expo a = expo b")
    case True
    let ?s = "(2::rat) powi (expo b - 52)"
    have "a / ?s \<le> b / ?s" using assms(2) by (simp add: divide_right_mono)
    then have "rat_of_int (round_half_even (a / ?s)) \<le> of_int (round_half_even (b / ?s))"
      using rhe_mono by (simp only: of_int_le_iff)
    then have "of_int (round_half_even (a / ?s)) * ?s \<le> of_int (round_half_even (b / ?s)) * ?s"
      by (simp add: mult_right_mono)
    then show ?thesis using assms(1) b True by (simp add: rnd_def Let_def)
  next
    case False
    with le have "expo a + 1 \<le> expo b" by simp
    then have "(2::rat) powi (expo a + 1) \<le> 2 powi (expo b)" by (intro power_int_increasing) auto
    then show ?thesis using rnd_range(2)[OF assms(1)] rnd_range(1)[OF b] by linarith
  qed
qed

lemma rnd_nonneg: "0 \<le> q \<Longrightarrow> 0 \<le> rnd q"
  using rnd_pos[of q] by (cases "q = 0") auto

lemma rnd_mono:
  assumes "a \<le> b"
  shows "rnd a \<le> rnd b"
proof -
  consider "0 < a" | "a \<le> 0" "0 \<le> b" | "b < 0" using assms by linarith
  then show ?thesis
  proof cases
    case 1
    then show ?thesis using assms by (rule rnd_mono_pos)
  next
    case 2
    have "0 \<le> rnd (- a)" using 2(1) by (intro rnd_nonneg) simp
    then have "rnd a \<le> 0" by (simp add: rnd_minus)
    then show ?thesis using rnd_nonneg[OF 2(2)] by linarith
  next
    case 3
    have "rnd (- b) \<le> rnd (- a)" using 3 assms by (intro rnd_mono_pos) simp_all
    then show ?thesis by (simp add: rnd_minus)
  qed
qed

text \<open>Rounding error: at most half a unit in the last place.\<close>

lemma rnd_err: "\<bar>rnd q - q\<bar> \<le> 2 powi (expo q - 53)"
proof (cases "q = 0")
  case True
  then show ?thesis by simp
next
  case False
  let ?s = "(2::rat) powi (expo q - 52)"
  let ?M = "round_half_even (q / ?s)"
  have s: "0 < ?s" by simp
  have "rnd q - q = (of_int ?M - q / ?s) * ?s" using False by (simp add: rnd_def Let_def algebra_simps)
  then have "\<bar>rnd q - q\<bar> = \<bar>of_int ?M - q / ?s\<bar> * ?s" using s by (simp add: abs_mult)
  also have "\<dots> \<le> (1 / 2) * ?s" using rhe_err[of "q / ?s"] s by (intro mult_right_mono) simp_all
  also have "\<dots> = 2 powi (expo q - 53)"
  proof -
    have "(2::rat) powi (expo q - 52) = 2 powi ((expo q - 53) + 1)" by simp
    also have "\<dots> = 2 * 2 powi (expo q - 53)" by (rule p2_Suc)
    finally show ?thesis by simp
  qed
  finally show ?thesis .
qed

lemma rnd_rel_err: "\<bar>rnd q - q\<bar> \<le> \<bar>q\<bar> / 2 ^ 53"
proof (cases "q = 0")
  case True
  then show ?thesis by simp
next
  case False
  have "(2::rat) powi (expo q) = 2 powi (53 + (expo q - 53))" by simp
  also have "\<dots> = 2 powi 53 * 2 powi (expo q - 53)" by (subst power_int_add) simp_all
  finally have "2 ^ 53 * 2 powi (expo q - 53) \<le> \<bar>q\<bar>" using expo_lower[OF False] by simp
  then have "2 powi (expo q - 53) \<le> \<bar>q\<bar> / 2 ^ 53" by (simp add: pos_le_divide_eq mult.commute)
  with rnd_err[of q] show ?thesis by linarith
qed

section \<open>The loops of one frame\<close>

lemma then_do_Inr [simp]: "then_do (Inr a) f = f a"
  by (simp add: then_do_def)

lemma then_do_Inl [simp]: "then_do (Inl e) f = Inl e"
  by (simp add: then_do_def)

lemma for_each_append:
  "for_each (as @ bs) body s = then_do (for_each as body s) (for_each bs body)"
  by (induction as arbitrary: s) (auto simp: then_do_def split: sum.splits)

lemma shape_okD:
  assumes "shape_ok fr" and "y < height" and "x < width"
  shows "length fr = height" and "length (fr ! y) = width" and "length (fr ! y ! x) = 4"
  using assms by (auto simp: shape_ok_def)

lemma shape_ok_update:
  assumes "shape_ok fr" and "length p = 4"
  shows "shape_ok (fr[y := (fr ! y)[x := p]])"
proof -
  have len: "length fr = height"
    and row: "\<And>y'. y' < height \<Longrightarrow> length (fr ! y') = width"
    and px: "\<And>y' x'. y' < height \<Longrightarrow> x' < width \<Longrightarrow> length (fr ! y' ! x') = 4"
    using assms(1) by (auto simp: shape_ok_def)
  have "length (fr[y := (fr ! y)[x := p]] ! y') = width" if "y' < height" for y'
    using that row[OF that] len by (cases "y' = y") simp_all
  moreover have "length (fr[y := (fr ! y)[x := p]] ! y' ! x') = 4" if "y' < height" "x' < width" for y' x'
  proof (cases "y' = y")
    case True
    then show ?thesis using that len row[OF that(1)] px[OF that] assms(2)
      by (cases "x' = x") simp_all
  next
    case False
    then show ?thesis using px[OF that] by simp
  qed
  ultimately show ?thesis using len by (simp add: shape_ok_def)
qed

lemma update_px:
  assumes "shape_ok fr" and "y < height" and "x < width" and "y' < height" and "x' < width"
  shows "fr[y := (fr ! y)[x := p]] ! y' ! x' = (if y' = y \<and> x' = x then p else fr ! y' ! x')"
  using shape_okD[OF assms(1)] assms(2-) by (auto simp: nth_list_update)

lemma paints_skip: "paints Inr {} c"
  by (simp add: paints_def)

lemma paints_seq:
  assumes "paints f S c" and "paints g T c"
  shows "paints (\<lambda>fr. then_do (f fr) g) (S \<union> T) c"
  unfolding paints_def
proof (intro allI impI)
  fix fr assume sh: "shape_ok fr"
  from assms(1) sh obtain fr1 where 1: "f fr = Inr fr1" "shape_ok fr1"
    "\<forall>y < height. \<forall>x < width. fr1 ! y ! x = (if (y, x) \<in> S then c y x else fr ! y ! x)"
    unfolding paints_def by blast
  from assms(2) 1(2) obtain fr2 where 2: "g fr1 = Inr fr2" "shape_ok fr2"
    "\<forall>y < height. \<forall>x < width. fr2 ! y ! x = (if (y, x) \<in> T then c y x else fr1 ! y ! x)"
    unfolding paints_def by blast
  have "then_do (f fr) g = Inr fr2" using 1(1) 2(1) by simp
  moreover have "\<forall>y < height. \<forall>x < width. fr2 ! y ! x = (if (y, x) \<in> S \<union> T then c y x else fr ! y ! x)"
    using 1(3) 2(3) by auto
  ultimately show "\<exists>fr'. then_do (f fr) g = Inr fr' \<and> shape_ok fr' \<and>
           (\<forall>y < height. \<forall>x < width. fr' ! y ! x = (if (y, x) \<in> S \<union> T then c y x else fr ! y ! x))"
    using 2(2) by blast
qed

lemma paints_for_each:
  assumes "\<And>a. a \<in> set as \<Longrightarrow> paints (body a) (S a) c"
  shows "paints (for_each as body) (\<Union>a \<in> set as. S a) c"
  using assms
proof (induction as)
  case Nil
  have "for_each [] body = Inr" by (rule ext) simp
  then show ?case using paints_skip[of c] by simp
next
  case (Cons a as)
  have "paints (\<lambda>fr. then_do (body a fr) (for_each as body)) (S a \<union> (\<Union>b \<in> set as. S b)) c"
    by (intro paints_seq Cons.prems Cons.IH) simp_all
  moreover have "for_each (a # as) body = (\<lambda>fr. then_do (body a fr) (for_each as body))"
    by (rule ext) simp
  ultimately show ?case by simp
qed

lemma paints_set_pixel:
  assumes "y < height" and "x < width" and "length vs = 4" and "c y x = map word_of_int vs"
  shows "paints (\<lambda>fr. set_pixel fr y x vs) {(y, x)} c"
  unfolding paints_def
proof (intro allI impI)
  fix fr assume sh: "shape_ok fr"
  let ?fr' = "fr[y := (fr ! y)[x := map word_of_int vs]]"
  have "set_pixel fr y x vs = Inr ?fr'"
    using shape_okD[OF sh assms(1,2)] assms by (simp add: set_pixel_def)
  moreover have "shape_ok ?fr'" using sh assms(3) by (intro shape_ok_update) simp_all
  moreover have "\<forall>y' < height. \<forall>x' < width. ?fr' ! y' ! x' = (if (y', x') \<in> {(y, x)} then c y' x' else fr ! y' ! x')"
    using update_px[OF sh assms(1,2)] assms(4) by auto
  ultimately show "\<exists>fr'. set_pixel fr y x vs = Inr fr' \<and> shape_ok fr' \<and>
           (\<forall>y' < height. \<forall>x' < width. fr' ! y' ! x' = (if (y', x') \<in> {(y, x)} then c y' x' else fr ! y' ! x'))"
    by blast
qed


lemma set_channel_step:
  assumes "y < length fr" and "x < length (fr ! y)" and "c < length p"
  shows "set_channel (fr[y := (fr ! y)[x := p]]) y x c v = Inr (fr[y := (fr ! y)[x := p[c := word_of_int v]]])"
  using assms by (simp add: set_channel_def)

lemma four_updates:
  assumes "length p = 4"
  shows "p[0 := a, Suc 0 := b, 2 := c, 3 := d] = [a, b, c, d]"
proof -
  from assms obtain p0 p1 p2 p3 where "p = [p0, p1, p2, p3]"
    by (auto simp: eval_nat_numeral length_Suc_conv)
  then show ?thesis by (simp add: eval_nat_numeral)
qed

lemma paint_pixel_eq:
  assumes "shape_ok fr" and "y < height" and "x < width"
  shows "paint_pixel tf y x fr =
    Inr (fr[y := (fr ! y)[x := [word_of_int (red_of tf x), word_of_int (green_of tf y),
                                 word_of_int (blue_of tf), 255]]])"
proof -
  let ?p = "fr ! y ! x"
  have l: "y < length fr" "x < length (fr ! y)" "length ?p = 4"
    using shape_okD[OF assms] assms(2,3) by simp_all
  have 0: "set_channel fr y x 0 (red_of tf x) = Inr (fr[y := (fr ! y)[x := ?p[0 := word_of_int (red_of tf x)]]])"
    using set_channel_step[OF l(1,2), of 0 ?p] l(3) by simp
  show ?thesis
    unfolding paint_pixel_def 0 then_do_Inr
    using l by (simp add: set_channel_step four_updates)
qed

lemma paints_paint_pixel:
  assumes "y < height" and "x < width"
  shows "paints (paint_pixel tf y x) {(y, x)}
    (\<lambda>y x. [word_of_int (red_of tf x), word_of_int (green_of tf y), word_of_int (blue_of tf), 255])"
  unfolding paints_def
proof (intro allI impI)
  fix fr assume sh: "shape_ok fr"
  let ?c = "\<lambda>y x. [word_of_int (red_of tf x), word_of_int (green_of tf y), word_of_int (blue_of tf), 255 :: 8 word]"
  let ?fr' = "fr[y := (fr ! y)[x := ?c y x]]"
  have "paint_pixel tf y x fr = Inr ?fr'" by (rule paint_pixel_eq[OF sh assms])
  moreover have "shape_ok ?fr'" using sh by (intro shape_ok_update) simp_all
  moreover have "\<forall>y' < height. \<forall>x' < width. ?fr' ! y' ! x' = (if (y', x') \<in> {(y, x)} then ?c y' x' else fr ! y' ! x')"
    using update_px[OF sh assms] by auto
  ultimately show "\<exists>fr'. paint_pixel tf y x fr = Inr fr' \<and> shape_ok fr' \<and>
           (\<forall>y' < height. \<forall>x' < width. fr' ! y' ! x' = (if (y', x') \<in> {(y, x)} then ?c y' x' else fr ! y' ! x'))"
    by blast
qed

lemma paints_gradient:
  "paints (paint_gradient tf) ({..<height} \<times> {..<width})
    (\<lambda>y x. [word_of_int (red_of tf x), word_of_int (green_of tf y), word_of_int (blue_of tf), 255])"
proof -
  let ?c = "\<lambda>y x. [word_of_int (red_of tf x), word_of_int (green_of tf y), word_of_int (blue_of tf), 255 :: 8 word]"
  have "paints (for_each [0..<height] (\<lambda>y. for_each [0..<width] (\<lambda>x. paint_pixel tf y x)))
          (\<Union>y \<in> set [0..<height]. \<Union>x \<in> set [0..<width]. {(y, x)}) ?c"
    by (intro paints_for_each paints_paint_pixel) simp_all
  moreover have "(\<Union>y \<in> set [0..<height]. \<Union>x \<in> set [0..<width]. {(y, x)}) = {..<height} \<times> {..<width}"
    by auto
  ultimately show ?thesis by (simp add: paint_gradient_def)
qed

lemma paints_draw_ant_pixel:
  "paints (draw_ant_pixel ax ay dy dx)
     (if in_bounds (ax + dx) (ay + dy) then {(nat (ay + dy), nat (ax + dx))} else {})
     (\<lambda>y x. [255, 255, 0, 255])"
proof (cases "in_bounds (ax + dx) (ay + dy)")
  case True
  then have "nat (ay + dy) < height" "nat (ax + dx) < width" by (auto simp: in_bounds_def)
  then have "paints (\<lambda>fr. set_pixel fr (nat (ay + dy)) (nat (ax + dx)) [255, 255, 0, 255])
      {(nat (ay + dy), nat (ax + dx))} (\<lambda>y x. [255, 255, 0, 255])"
    by (intro paints_set_pixel) simp_all
  moreover have "draw_ant_pixel ax ay dy dx = (\<lambda>fr. set_pixel fr (nat (ay + dy)) (nat (ax + dx)) [255, 255, 0, 255])"
    using True by (intro ext) (simp add: draw_ant_pixel_def)
  ultimately show ?thesis using True by simp
next
  case False
  then have "draw_ant_pixel ax ay dy dx = Inr" by (intro ext) (simp add: draw_ant_pixel_def)
  then show ?thesis using False paints_skip by simp
qed

lemma UN_if_singleton:
  "(\<Union>a \<in> A. \<Union>b \<in> B. \<Union>c \<in> C. if P a b c then {f a b c} else {}) =
   {z. \<exists>a \<in> A. \<exists>b \<in> B. \<exists>c \<in> C. P a b c \<and> z = f a b c}"
  by (auto split: if_splits)

lemma covered_set:
  "{(y, x). covered i y x} =
   (\<Union>ant \<in> set [0..<10]. \<Union>dy \<in> set [-2..2]. \<Union>dx \<in> set [-2..2].
      if in_bounds (ant_x i ant + dx) (ant_y i ant + dy)
      then {(nat (ant_y i ant + dy), nat (ant_x i ant + dx))} else {})"
  unfolding UN_if_singleton covered_def by blast

lemma paints_draw_ants:
  "paints (draw_ants i) {(y, x). covered i y x} (\<lambda>y x. [255, 255, 0, 255])"
  unfolding covered_set draw_ants_def draw_ant_def Let_def
  by (intro paints_for_each paints_draw_ant_pixel)

lemma shape_ok_zeros: "shape_ok (np_zeros height width 4)"
  by (simp add: shape_ok_def np_zeros_def)

text \<open>The finished buffer: the marker colour where a marker was drawn, the gradient elsewhere.\<close>

lemma render_frame_pixels:
  "\<exists>fr. render_frame i = Inr fr \<and> shape_ok fr \<and>
     (\<forall>y < height. \<forall>x < width. fr ! y ! x =
        (if covered i y x then [255, 255, 0, 255]
         else [word_of_int (red_of (time_factor i) x), word_of_int (green_of (time_factor i) y),
               word_of_int (blue_of (time_factor i)), 255]))"
proof -
  let ?tf = "time_factor i"
  let ?c = "\<lambda>y x. [word_of_int (red_of ?tf x), word_of_int (green_of ?tf y), word_of_int (blue_of ?tf), 255 :: 8 word]"
  from paints_gradient[of ?tf] shape_ok_zeros
  obtain fr1 where 1: "paint_gradient ?tf (np_zeros height width 4) = Inr fr1" "shape_ok fr1"
    "\<forall>y < height. \<forall>x < width. fr1 ! y ! x =
       (if (y, x) \<in> {..<height} \<times> {..<width} then ?c y x else np_zeros height width 4 ! y ! x)"
    unfolding paints_def by blast
  from paints_draw_ants[of i] 1(2)
  obtain fr2 where 2: "draw_ants i fr1 = Inr fr2" "shape_ok fr2"
    "\<forall>y < height. \<forall>x < width. fr2 ! y ! x =
       (if (y, x) \<in> {(y, x). covered i y x} then [255, 255, 0, 255] else fr1 ! y ! x)"
    unfolding paints_def by blast
  have "render_frame i = Inr fr2" using 1(1) 2(1) by (simp add: render_frame_def)
  moreover have "\<forall>y < height. \<forall>x < width. fr2 ! y ! x = (if covered i y x then [255, 255, 0, 255] else ?c y x)"
    using 1(3) 2(3) by simp
  ultimately show ?thesis using 2(2) by blast
qed

section \<open>Evaluating float expressions\<close>

text \<open>
  Rewrite rules under which the simplifier computes \<open>rnd\<close> on numerals: floors of
  fractions by integer division, bit lengths by the binary digits of the numeral.
\<close>

lemma floor_rat_numeral: "\<lfloor>numeral a / numeral b :: rat\<rfloor> = numeral a div numeral b"
  using floor_divide_of_int_eq[of "numeral a" "numeral b", where ?'a = rat] by simp

lemma ceiling_rat_numeral: "\<lceil>numeral a / numeral b :: rat\<rceil> = - ((- numeral a) div numeral b)"
  using floor_divide_of_int_eq[of "- numeral a" "numeral b", where ?'a = rat] by (simp add: ceiling_def)

lemma bitlen_One: "bitlen 1 = 1"
  by (simp add: bitlen_def compute_floorlog)

lemma bitlen_Bit0: "bitlen (numeral (Num.Bit0 n)) = bitlen (numeral n) + 1"
proof -
  have "floorlog 2 (numeral (Num.Bit0 n)) = floorlog 2 (numeral (Num.Bit0 n) div 2) + 1"
    by (subst compute_floorlog) simp
  then show ?thesis by (simp add: bitlen_def)
qed

lemma bitlen_Bit1: "bitlen (numeral (Num.Bit1 n)) = bitlen (numeral n) + 1"
proof -
  have "floorlog 2 (numeral (Num.Bit1 n)) = floorlog 2 (numeral (Num.Bit1 n) div 2) + 1"
    by (subst compute_floorlog) simp
  then show ?thesis by (simp add: bitlen_def)
qed

lemmas fl_eval = rnd_def expo_def round_half_even_def Let_def fl_div_def fl_mul_def fl_sub_def
  py_int_def floor_rat_numeral ceiling_rat_numeral bitlen_One bitlen_Bit0 bitlen_Bit1

lemma all_less_numeral:
  "(\<forall>k < numeral n. P k) = (P (pred_numeral n) \<and> (\<forall>k < pred_numeral n. P k))"
  by (simp add: numeral_eq_Suc All_less_Suc)

lemma all_less_zero: "(\<forall>k < (0::nat). P k) = True"
  by simp

lemmas unroll = all_less_numeral all_less_zero pred_numeral_simps Num.BitM.simps

lemma lit_0_8_val: "lit_0_8 = 3602879701896397 / 4503599627370496"
  by (simp add: lit_0_8_def fl_eval)

lemma width_scaled: "fl_mul (of_nat width) lit_0_8 = 324"
  by (simp add: width_def lit_0_8_val fl_eval)

lemma height_scaled: "fl_mul (of_nat height) lit_0_8 = 576"
  by (simp add: height_def lit_0_8_val fl_eval)

lemma ant_x_table:
  "\<forall>k < 30. py_int (fl_div (fl_mul 324 (of_nat k)) 30) = \<lfloor>405 * (8 / 10) * of_nat k / 30 :: rat\<rfloor>"
  apply (simp only: unroll)
  apply (simp add: fl_eval)
  done

lemma ant_y_table:
  "\<forall>k < 30. py_int (fl_div (fl_mul 576 (of_nat k)) 30) = \<lfloor>720 * (8 / 10) * of_nat k / 30 :: rat\<rfloor>"
  apply (simp only: unroll)
  apply (simp add: fl_eval)
  done

section \<open>Marker positions and the finished pixels\<close>

lemma ant_x_exact:
  "ant_x i ant = \<lfloor>405 * (8 / 10) * of_nat ((i + ant * 3) mod 30) / 30 :: rat\<rfloor> + 50"
proof -
  have "(i + ant * 3) mod 30 < 30" by simp
  then show ?thesis using ant_x_table by (simp add: ant_x_def width_scaled)
qed

lemma ant_y_exact:
  "ant_y i ant = \<lfloor>720 * (8 / 10) * of_nat ((i + ant * 2) mod 30) / 30 :: rat\<rfloor> + 50"
proof -
  have "(i + ant * 2) mod 30 < 30" by simp
  then show ?thesis using ant_y_table by (simp add: ant_y_def height_scaled)
qed

lemma ant_x_range: "50 \<le> ant_x i ant" "ant_x i ant \<le> 363"
proof -
  let ?k = "(i + ant * 3) mod 30"
  have k: "rat_of_nat ?k \<le> 29"
    by (metis mod_less_divisor of_nat_le_iff of_nat_numeral less_Suc_eq_le zero_less_numeral
        eval_nat_numeral(3) Suc_numeral semiring_norm(5) semiring_norm(8))
  have "0 \<le> 405 * (8 / 10) * rat_of_nat ?k / 30" by simp
  then show "50 \<le> ant_x i ant" unfolding ant_x_exact by simp
  have "405 * (8 / 10) * rat_of_nat ?k / 30 < 314" using k by simp
  then have "\<lfloor>405 * (8 / 10) * rat_of_nat ?k / 30\<rfloor> < 314" by (simp only: floor_less_iff of_int_numeral)
  then show "ant_x i ant \<le> 363" unfolding ant_x_exact by simp
qed

lemma ant_y_range: "50 \<le> ant_y i ant" "ant_y i ant \<le> 606"
proof -
  let ?k = "(i + ant * 2) mod 30"
  have "?k < 30" by simp
  then have "?k \<le> 29" by linarith
  then have k: "rat_of_nat ?k \<le> 29" by (metis of_nat_le_iff of_nat_numeral)
  have "0 \<le> 720 * (8 / 10) * rat_of_nat ?k / 30" by simp
  then show "50 \<le> ant_y i ant" unfolding ant_y_exact by simp
  have "720 * (8 / 10) * rat_of_nat ?k / 30 < 557" using k by simp
  then have "\<lfloor>720 * (8 / 10) * rat_of_nat ?k / 30\<rfloor> < 557" by (simp only: floor_less_iff of_int_numeral)
  then show "ant_y i ant \<le> 606" unfolding ant_y_exact by simp
qed

lemma marker_in_bounds:
  assumes "-2 \<le> dx" "dx \<le> 2" "-2 \<le> dy" "dy \<le> 2"
  shows "in_bounds (ant_x i ant + dx) (ant_y i ant + dy)"
  using assms ant_x_range[of i ant] ant_y_range[of i ant]
  by (simp add: in_bounds_def width_def height_def)

lemma covered_alt:
  "covered i y x \<longleftrightarrow>
     (\<exists>ant dy dx. ant < 10 \<and> -2 \<le> dy \<and> dy \<le> 2 \<and> -2 \<le> dx \<and> dx \<le> 2 \<and>
        in_bounds (ant_x i ant + dx) (ant_y i ant + dy) \<and>
        y = nat (ant_y i ant + dy) \<and> x = nat (ant_x i ant + dx))"
  unfolding covered_def Bex_def set_upt set_upto atLeastAtMost_iff atLeastLessThan_iff
  using le0 by blast

lemma covered_iff:
  "covered i y x \<longleftrightarrow> (\<exists>ant < 10. \<bar>int x - ant_x i ant\<bar> \<le> 2 \<and> \<bar>int y - ant_y i ant\<bar> \<le> 2)"
proof
  assume "covered i y x"
  then obtain ant dy dx where a: "ant < 10" "-2 \<le> dy" "dy \<le> 2" "-2 \<le> dx" "dx \<le> 2"
    "in_bounds (ant_x i ant + dx) (ant_y i ant + dy)"
    "y = nat (ant_y i ant + dy)" "x = nat (ant_x i ant + dx)"
    unfolding covered_alt by blast
  then have "int x = ant_x i ant + dx" "int y = ant_y i ant + dy" by (auto simp: in_bounds_def)
  with a show "\<exists>ant < 10. \<bar>int x - ant_x i ant\<bar> \<le> 2 \<and> \<bar>int y - ant_y i ant\<bar> \<le> 2" by auto
next
  assume "\<exists>ant < 10. \<bar>int x - ant_x i ant\<bar> \<le> 2 \<and> \<bar>int y - ant_y i ant\<bar> \<le> 2"
  then obtain ant where a: "ant < 10" "\<bar>int x - ant_x i ant\<bar> \<le> 2" "\<bar>int y - ant_y i ant\<bar> \<le> 2" by blast
  define dx where "dx = int x - ant_x i ant"
  define dy where "dy = int y - ant_y i ant"
  have d: "-2 \<le> dx" "dx \<le> 2" "-2 \<le> dy" "dy \<le> 2" using a by (auto simp: dx_def dy_def)
  have "in_bounds (ant_x i ant + dx) (ant_y i ant + dy)" using d by (rule marker_in_bounds)
  moreover have "y = nat (ant_y i ant + dy)" "x = nat (ant_x i ant + dx)" by (simp_all add: dx_def dy_def)
  ultimately show "covered i y x" unfolding covered_alt using a(1) d by blast
qed

lemma not_covered_left: "x < 48 \<Longrightarrow> \<not> covered i y x"
proof
  assume x: "x < 48" and "covered i y x"
  then obtain ant where "\<bar>int x - ant_x i ant\<bar> \<le> 2" unfolding covered_iff by blast
  with x ant_x_range(1)[of i ant] show False by linarith
qed

lemma frame_pixel_eq:
  assumes "y < height" and "x < width"
  shows "frame_pixel i y x = Some
     (if covered i y x then [255, 255, 0, 255]
      else [word_of_int (red_of (time_factor i) x), word_of_int (green_of (time_factor i) y),
            word_of_int (blue_of (time_factor i)), 255])"
  using render_frame_pixels[of i] assms by (auto simp: frame_pixel_def)

section \<open>Rounding error of the channel values\<close>

lemma rnd_unit:
  assumes "0 \<le> q" and "q \<le> 1"
  shows "0 \<le> rnd q" and "rnd q \<le> 1" and "\<bar>rnd q - q\<bar> \<le> 1 / 2 ^ 53"
proof -
  show "0 \<le> rnd q" using assms(1) by (rule rnd_nonneg)
  have "rnd q \<le> rnd 1" using assms(2) by (rule rnd_mono)
  moreover have "rnd 1 = 1" by (simp add: fl_eval)
  ultimately show "rnd q \<le> 1" by simp
  have "\<bar>q\<bar> / 2 ^ 53 \<le> 1 / 2 ^ 53" using assms by (simp add: divide_right_mono)
  with rnd_rel_err[of q] show "\<bar>rnd q - q\<bar> \<le> 1 / 2 ^ 53" by linarith
qed

lemma rnd_byte:
  assumes "0 \<le> q" and "q \<le> 256"
  shows "0 \<le> rnd q" and "rnd q \<le> 256" and "\<bar>rnd q - q\<bar> \<le> 256 / 2 ^ 53"
proof -
  show "0 \<le> rnd q" using assms(1) by (rule rnd_nonneg)
  have "rnd q \<le> rnd 256" using assms(2) by (rule rnd_mono)
  moreover have "rnd 256 = 256" by (simp add: fl_eval)
  ultimately show "rnd q \<le> 256" by simp
  have "\<bar>q\<bar> / 2 ^ 53 \<le> 256 / 2 ^ 53" using assms by (simp add: divide_right_mono)
  with rnd_rel_err[of q] show "\<bar>rnd q - q\<bar> \<le> 256 / 2 ^ 53" by linarith
qed

lemma prod_err:
  fixes b c B C :: rat
  assumes "\<bar>b - B\<bar> \<le> eb" and "\<bar>c - C\<bar> \<le> ec" and "\<bar>c\<bar> \<le> 1" and "\<bar>B\<bar> \<le> M"
  shows "\<bar>b * c - B * C\<bar> \<le> eb + M * ec"
proof -
  have "b * c - B * C = (b - B) * c + B * (c - C)" by (simp add: algebra_simps)
  then have "\<bar>b * c - B * C\<bar> \<le> \<bar>(b - B) * c\<bar> + \<bar>B * (c - C)\<bar>" by (simp add: abs_triangle_ineq)
  also have "\<bar>(b - B) * c\<bar> \<le> eb * 1"
    unfolding abs_mult using assms(1,3) by (intro mult_mono) simp_all
  also have "\<bar>B * (c - C)\<bar> \<le> M * ec"
    unfolding abs_mult using assms(2,4) by (intro mult_mono) simp_all
  finally show ?thesis by simp
qed

lemma floor_close:
  fixes d :: rat
  assumes "0 < D" and "\<bar>d - of_int N / of_int D\<bar> < 1 / of_int D"
  shows "N div D - 1 \<le> \<lfloor>d\<rfloor>" and "\<lfloor>d\<rfloor> \<le> N div D" and "\<not> D dvd N \<Longrightarrow> \<lfloor>d\<rfloor> = N div D"
proof -
  define n where "n = N div D"
  define r where "r = N mod D"
  have N: "N = n * D + r" by (simp add: n_def r_def)
  have r: "0 \<le> r" "r < D" using assms(1) by (simp_all add: r_def)
  have D: "0 < rat_of_int D" using assms(1) by simp
  have v: "rat_of_int N / of_int D = of_int n + of_int r / of_int D"
    using D by (simp add: N field_simps)
  have r1: "rat_of_int r / of_int D \<le> 1 - 1 / of_int D"
  proof -
    have "r + 1 \<le> D" using r by simp
    then have "rat_of_int (r + 1) \<le> of_int D" by (simp only: of_int_le_iff)
    then show ?thesis using D by (simp add: field_simps)
  qed
  have r0: "0 \<le> rat_of_int r / of_int D" using r D by simp
  have lo: "of_int n - 1 < d" and hi: "d < of_int n + 1"
    using assms(2) v r0 r1 by (simp_all add: abs_less_iff)
  show "N div D - 1 \<le> \<lfloor>d\<rfloor>" using lo unfolding n_def[symmetric] by (simp add: le_floor_iff less_imp_le)
  show "\<lfloor>d\<rfloor> \<le> N div D" using hi unfolding n_def[symmetric] by (simp add: floor_le_iff)
  show "\<lfloor>d\<rfloor> = N div D" if "\<not> D dvd N"
  proof -
    have "r \<noteq> 0" using that by (auto simp: r_def dvd_eq_mod_eq_0)
    with r have "1 \<le> r" by simp
    then have "rat_of_int 1 \<le> of_int r" by (simp only: of_int_le_iff)
    then have "1 / of_int D \<le> rat_of_int r / of_int D" using D by (simp add: divide_right_mono)
    then have "of_int n < d" using assms(2) v by (simp add: abs_less_iff)
    then show ?thesis using hi unfolding n_def[symmetric] by (simp add: floor_unique less_imp_le)
  qed
qed


lemma time_factor_unit:
  assumes "i < 30"
  shows "0 \<le> time_factor i" and "time_factor i \<le> 1"
    and "\<bar>time_factor i - of_nat i / 29\<bar> \<le> 1 / 2 ^ 53"
proof -
  have "i \<le> 29" using assms by simp
  then have "rat_of_nat i \<le> 29" by (metis of_nat_le_iff of_nat_numeral)
  then have q: "0 \<le> rat_of_nat i / 29" "rat_of_nat i / 29 \<le> 1" by simp_all
  show "0 \<le> time_factor i" "time_factor i \<le> 1" "\<bar>time_factor i - of_nat i / 29\<bar> \<le> 1 / 2 ^ 53"
    unfolding time_factor_def fl_div_def using rnd_unit[OF q] by simp_all
qed

text \<open>The common prefix \<^verbatim>\<open>255 * (n / m)\<close> of the red and green channels.\<close>

lemma scaled_ratio:
  assumes "n < m"
  shows "0 \<le> fl_mul 255 (fl_div (of_nat n) (of_nat m))"
    and "fl_mul 255 (fl_div (of_nat n) (of_nat m)) \<le> 256"
    and "\<bar>fl_mul 255 (fl_div (of_nat n) (of_nat m)) - 255 * (of_nat n / of_nat m)\<bar> \<le> 511 / 2 ^ 53"
proof -
  let ?X = "rat_of_nat n / of_nat m"
  have m: "0 < rat_of_nat m" using assms by simp
  have "rat_of_nat n \<le> of_nat m" using assms by simp
  then have X: "0 \<le> ?X" "?X \<le> 1" using m by simp_all
  note a = rnd_unit[OF X]
  have q: "0 \<le> 255 * rnd ?X" "255 * rnd ?X \<le> 256" using a(1,2) by simp_all
  note b = rnd_byte[OF q]
  show "0 \<le> fl_mul 255 (fl_div (of_nat n) (of_nat m))" using b(1) by (simp add: fl_mul_def fl_div_def)
  show "fl_mul 255 (fl_div (of_nat n) (of_nat m)) \<le> 256" using b(2) by (simp add: fl_mul_def fl_div_def)
  have "\<bar>255 * rnd ?X - 255 * ?X\<bar> \<le> 255 * (1 / 2 ^ 53)"
    using a(3) by (simp only: right_diff_distrib[symmetric] abs_mult) simp
  with b(3) show "\<bar>fl_mul 255 (fl_div (of_nat n) (of_nat m)) - 255 * ?X\<bar> \<le> 511 / 2 ^ 53"
    unfolding fl_mul_def fl_div_def by linarith
qed

lemma red_err:
  assumes "i < 30" and "x < width"
  shows "0 \<le> fl_mul (fl_mul 255 (fl_div (of_nat x) (of_nat width))) (fl_sub 1 (time_factor i))"
    and "\<bar>fl_mul (fl_mul 255 (fl_div (of_nat x) (of_nat width))) (fl_sub 1 (time_factor i))
          - 255 * (of_nat x / 405) * (1 - of_nat i / 29)\<bar> \<le> 1277 / 2 ^ 53"
proof -
  let ?b = "fl_mul 255 (fl_div (of_nat x) (of_nat width))"
  let ?c = "fl_sub 1 (time_factor i)"
  let ?B = "255 * (rat_of_nat x / 405)"
  let ?C = "1 - rat_of_nat i / 29"
  note t = time_factor_unit[OF assms(1)]
  note b = scaled_ratio[OF assms(2)]
  have q: "0 \<le> 1 - time_factor i" "1 - time_factor i \<le> 1" using t by simp_all
  note c = rnd_unit[OF q]
  have c1: "0 \<le> ?c" "?c \<le> 1" using c by (simp_all add: fl_sub_def)
  have cC: "\<bar>?c - ?C\<bar> \<le> 2 / 2 ^ 53" using c(3) t(3) unfolding fl_sub_def by linarith
  have bB: "\<bar>?b - ?B\<bar> \<le> 511 / 2 ^ 53" using b(3) by (simp add: width_def)
  have "rat_of_nat x \<le> 405" using assms(2) by (simp add: width_def)
  then have B: "\<bar>?B\<bar> \<le> 255" by simp
  have "\<bar>?b * ?c - ?B * ?C\<bar> \<le> 511 / 2 ^ 53 + 255 * (2 / 2 ^ 53)"
    using bB cC _ B by (rule prod_err) (use c1 in simp)
  then have p: "\<bar>?b * ?c - ?B * ?C\<bar> \<le> 1021 / 2 ^ 53" by simp
  have "0 \<le> ?b * ?c" using b(1) c1(1) by simp
  moreover have "?b * ?c \<le> 256 * 1" using b(1,2) c1 by (intro mult_mono) simp_all
  ultimately have bc: "0 \<le> ?b * ?c" "?b * ?c \<le> 256" by simp_all
  note d = rnd_byte[OF bc]
  show "0 \<le> fl_mul ?b ?c" using d(1) by (simp add: fl_mul_def)
  show "\<bar>fl_mul ?b ?c - ?B * ?C\<bar> \<le> 1277 / 2 ^ 53"
    using d(3) p unfolding fl_mul_def by linarith
qed

lemma green_err:
  assumes "i < 30" and "y < height"
  shows "0 \<le> fl_mul (fl_mul 255 (fl_div (of_nat y) (of_nat height))) (time_factor i)"
    and "\<bar>fl_mul (fl_mul 255 (fl_div (of_nat y) (of_nat height))) (time_factor i)
          - 255 * (of_nat y / 720) * (of_nat i / 29)\<bar> \<le> 1022 / 2 ^ 53"
proof -
  let ?b = "fl_mul 255 (fl_div (of_nat y) (of_nat height))"
  let ?c = "time_factor i"
  let ?B = "255 * (rat_of_nat y / 720)"
  let ?C = "rat_of_nat i / 29"
  note t = time_factor_unit[OF assms(1)]
  note b = scaled_ratio[OF assms(2)]
  have bB: "\<bar>?b - ?B\<bar> \<le> 511 / 2 ^ 53" using b(3) by (simp add: height_def)
  have "rat_of_nat y \<le> 720" using assms(2) by (simp add: height_def)
  then have B: "\<bar>?B\<bar> \<le> 255" by simp
  have "\<bar>?b * ?c - ?B * ?C\<bar> \<le> 511 / 2 ^ 53 + 255 * (1 / 2 ^ 53)"
    using bB t(3) _ B by (rule prod_err) (use t in simp)
  then have p: "\<bar>?b * ?c - ?B * ?C\<bar> \<le> 766 / 2 ^ 53" by simp
  have "0 \<le> ?b * ?c" using b(1) t(1) by simp
  moreover have "?b * ?c \<le> 256 * 1" using b(1,2) t(1,2) by (intro mult_mono) simp_all
  ultimately have bc: "0 \<le> ?b * ?c" "?b * ?c \<le> 256" by simp_all
  note d = rnd_byte[OF bc]
  show "0 \<le> fl_mul ?b ?c" using d(1) by (simp add: fl_mul_def)
  show "\<bar>fl_mul ?b ?c - ?B * ?C\<bar> \<le> 1022 / 2 ^ 53"
    using d(3) p unfolding fl_mul_def by linarith
qed


lemma py_int_nonneg: "0 \<le> q \<Longrightarrow> py_int q = \<lfloor>q\<rfloor>"
  by (simp add: py_int_def)

lemma floor_nonintegral:
  fixes N D :: int
  assumes "rat_of_int N / of_int D \<noteq> of_int \<lfloor>rat_of_int N / of_int D\<rfloor>"
  shows "\<not> D dvd N"
proof
  assume "D dvd N"
  then obtain k where k: "N = D * k" by (rule dvdE)
  show False
  proof (cases "D = 0")
    case True
    with assms show False by simp
  next
    case False
    then have "rat_of_int N / of_int D = of_int k" using k by simp
    with assms show False by simp
  qed
qed

text \<open>The red channel against the exact value \<open>255 * (x / 405) * (1 - i / 29)\<close>.\<close>

lemma red_close:
  assumes "i < 30" and "x < width"
  defines "v \<equiv> 255 * (rat_of_nat x / 405) * (1 - rat_of_nat i / 29)"
  shows "0 \<le> red_of (time_factor i) x"
    and "\<lfloor>v\<rfloor> - 1 \<le> red_of (time_factor i) x"
    and "red_of (time_factor i) x \<le> \<lfloor>v\<rfloor>"
    and "v \<noteq> of_int \<lfloor>v\<rfloor> \<Longrightarrow> red_of (time_factor i) x = \<lfloor>v\<rfloor>"
proof -
  let ?d = "fl_mul (fl_mul 255 (fl_div (of_nat x) (of_nat width))) (fl_sub 1 (time_factor i))"
  define N where "N = 255 * int x * (29 - int i)"
  have v: "v = rat_of_int N / of_int 11745" by (simp add: v_def N_def field_simps)
  have fv: "\<lfloor>v\<rfloor> = N div 11745" unfolding v by (rule floor_divide_of_int_eq)
  note e = red_err[OF assms(1,2)]
  have r: "red_of (time_factor i) x = \<lfloor>?d\<rfloor>" using e(1) by (simp add: red_of_def py_int_nonneg)
  have "\<bar>?d - v\<bar> \<le> 1277 / 2 ^ 53" using e(2) unfolding v_def .
  then have "\<bar>?d - rat_of_int N / of_int 11745\<bar> \<le> 1277 / 2 ^ 53" unfolding v .
  moreover have "(1277::rat) / 2 ^ 53 < 1 / of_int 11745" by simp
  ultimately have c: "\<bar>?d - rat_of_int N / of_int 11745\<bar> < 1 / of_int 11745" by (rule le_less_trans)
  have D: "(0::int) < 11745" by simp
  show "0 \<le> red_of (time_factor i) x" unfolding r using e(1) by simp
  show "\<lfloor>v\<rfloor> - 1 \<le> red_of (time_factor i) x" unfolding r fv by (rule floor_close(1)[OF D c])
  show "red_of (time_factor i) x \<le> \<lfloor>v\<rfloor>" unfolding r fv by (rule floor_close(2)[OF D c])
  show "red_of (time_factor i) x = \<lfloor>v\<rfloor>" if "v \<noteq> of_int \<lfloor>v\<rfloor>"
    unfolding r fv using that unfolding v by (intro floor_close(3)[OF D c] floor_nonintegral)
qed

text \<open>The green channel against the exact value \<open>255 * (y / 720) * (i / 29)\<close>.\<close>

lemma green_close:
  assumes "i < 30" and "y < height"
  defines "v \<equiv> 255 * (rat_of_nat y / 720) * (rat_of_nat i / 29)"
  shows "0 \<le> green_of (time_factor i) y"
    and "\<lfloor>v\<rfloor> - 1 \<le> green_of (time_factor i) y"
    and "green_of (time_factor i) y \<le> \<lfloor>v\<rfloor>"
    and "v \<noteq> of_int \<lfloor>v\<rfloor> \<Longrightarrow> green_of (time_factor i) y = \<lfloor>v\<rfloor>"
proof -
  let ?d = "fl_mul (fl_mul 255 (fl_div (of_nat y) (of_nat height))) (time_factor i)"
  define N where "N = 255 * int y * int i"
  have v: "v = rat_of_int N / of_int 20880" by (simp add: v_def N_def field_simps)
  have fv: "\<lfloor>v\<rfloor> = N div 20880" unfolding v by (rule floor_divide_of_int_eq)
  note e = green_err[OF assms(1,2)]
  have r: "green_of (time_factor i) y = \<lfloor>?d\<rfloor>" using e(1) by (simp add: green_of_def py_int_nonneg)
  have "\<bar>?d - v\<bar> \<le> 1022 / 2 ^ 53" using e(2) unfolding v_def .
  then have "\<bar>?d - rat_of_int N / of_int 20880\<bar> \<le> 1022 / 2 ^ 53" unfolding v .
  moreover have "(1022::rat) / 2 ^ 53 < 1 / of_int 20880" by simp
  ultimately have c: "\<bar>?d - rat_of_int N / of_int 20880\<bar> < 1 / of_int 20880" by (rule le_less_trans)
  have D: "(0::int) < 20880" by simp
  show "0 \<le> green_of (time_factor i) y" unfolding r using e(1) by simp
  show "\<lfloor>v\<rfloor> - 1 \<le> green_of (time_factor i) y" unfolding r fv by (rule floor_close(1)[OF D c])
  show "green_of (time_factor i) y \<le> \<lfloor>v\<rfloor>" unfolding r fv by (rule floor_close(2)[OF D c])
  show "green_of (time_factor i) y = \<lfloor>v\<rfloor>" if "v \<noteq> of_int \<lfloor>v\<rfloor>"
    unfolding r fv using that unfolding v by (intro floor_close(3)[OF D c] floor_nonintegral)
qed

lemma blue_table: "\<forall>i < 30. blue_of (time_factor i) = \<lfloor>255 * of_nat i / 29 :: rat\<rfloor>"
  apply (simp only: unroll)
  apply (simp add: blue_of_def time_factor_def fl_eval)
  done

lemma blue_exact: "i < 30 \<Longrightarrow> blue_of (time_factor i) = (255 * int i) div 29"
proof -
  assume "i < 30"
  then have "blue_of (time_factor i) = \<lfloor>rat_of_int (255 * int i) / of_int 29\<rfloor>"
    using blue_table by simp
  then show ?thesis by (simp only: floor_divide_of_int_eq)
qed

section \<open>Ranges of the channel values\<close>

lemma byte_val: "0 \<le> k \<Longrightarrow> k \<le> 255 \<Longrightarrow> uint (word_of_int k :: 8 word) = k"
  by (simp add: uint_word_of_int)

lemma red_range:
  assumes "i < 30" and "x < width"
  shows "0 \<le> red_of (time_factor i) x" and "red_of (time_factor i) x \<le> 254"
proof -
  show "0 \<le> red_of (time_factor i) x" by (rule red_close(1)[OF assms])
  let ?B = "255 * (rat_of_nat x / 405)"
  have "x \<le> 404" using assms(2) by (simp add: width_def)
  then have "rat_of_nat x \<le> 404" by (metis of_nat_le_iff of_nat_numeral)
  then have B: "0 \<le> ?B" "?B < 255" by simp_all
  have "i \<le> 29" using assms(1) by simp
  then have "rat_of_nat i \<le> 29" by (metis of_nat_le_iff of_nat_numeral)
  then have C: "0 \<le> 1 - rat_of_nat i / 29" "1 - rat_of_nat i / 29 \<le> 1" by simp_all
  have "?B * (1 - rat_of_nat i / 29) \<le> ?B * 1" using B(1) C by (intro mult_left_mono) simp_all
  then have "?B * (1 - rat_of_nat i / 29) < 255" using B(2) by simp
  then have "\<lfloor>?B * (1 - rat_of_nat i / 29)\<rfloor> \<le> 254" by (simp only: floor_le_iff of_int_numeral)
  with red_close(3)[OF assms] show "red_of (time_factor i) x \<le> 254" by linarith
qed

lemma green_range:
  assumes "i < 30" and "y < height"
  shows "0 \<le> green_of (time_factor i) y" and "green_of (time_factor i) y \<le> 254"
proof -
  show "0 \<le> green_of (time_factor i) y" by (rule green_close(1)[OF assms])
  let ?B = "255 * (rat_of_nat y / 720)"
  have "y \<le> 719" using assms(2) by (simp add: height_def)
  then have "rat_of_nat y \<le> 719" by (metis of_nat_le_iff of_nat_numeral)
  then have B: "0 \<le> ?B" "?B < 255" by simp_all
  have "i \<le> 29" using assms(1) by simp
  then have "rat_of_nat i \<le> 29" by (metis of_nat_le_iff of_nat_numeral)
  then have C: "0 \<le> rat_of_nat i / 29" "rat_of_nat i / 29 \<le> 1" by simp_all
  have "?B * (rat_of_nat i / 29) \<le> ?B * 1" using B(1) C by (intro mult_left_mono) simp_all
  then have "?B * (rat_of_nat i / 29) < 255" using B(2) by simp
  then have "\<lfloor>?B * (rat_of_nat i / 29)\<rfloor> \<le> 254" by (simp only: floor_le_iff of_int_numeral)
  with green_close(3)[OF assms] show "green_of (time_factor i) y \<le> 254" by linarith
qed

lemma blue_range:
  assumes "i < 30"
  shows "0 \<le> blue_of (time_factor i)" and "blue_of (time_factor i) \<le> 255"
  using assms unfolding blue_exact[OF assms] by simp_all

lemma blue_strict_mono:
  assumes "i < j" and "j < 30"
  shows "blue_of (time_factor i) < blue_of (time_factor j)"
proof -
  have i: "i < 30" using assms by simp
  have "int i + 1 \<le> int j" using assms(1) by simp
  then show ?thesis unfolding blue_exact[OF i] blue_exact[OF assms(2)] by simp
qed

lemma not_covered_top: "y < 48 \<Longrightarrow> \<not> covered i y x"
proof
  assume y: "y < 48" and "covered i y x"
  then obtain ant where "\<bar>int y - ant_y i ant\<bar> \<le> 2" unfolding covered_iff by blast
  with y ant_y_range(1)[of i ant] show False by linarith
qed

section \<open>Particular frames and pixels\<close>

lemma time_factor_2: "time_factor 2 = 2484744621997515 / 36028797018963968"
  by (simp add: time_factor_def fl_eval)

lemma red_2_145: "red_of (time_factor 2) 145 = 84"
  unfolding time_factor_2 by (simp add: red_of_def width_def fl_eval)

lemma not_int_rat: "of_int \<lfloor>q\<rfloor> \<noteq> q \<Longrightarrow> q \<notin> \<int>"
  by (metis Ints_cases floor_of_int)

lemma green_row_0: "green_of tf 0 = 0"
  by (simp add: green_of_def fl_div_def fl_mul_def py_int_def)

lemma gradient_pixel_bytes:
  assumes "i < 30" and "x < width" and "y < height" and "\<not> covered i y x"
  shows "\<exists>p. frame_pixel i y x = Some p \<and> length p = 4 \<and>
    uint (p ! 0) = red_of (time_factor i) x \<and> uint (p ! 1) = green_of (time_factor i) y \<and>
    uint (p ! 2) = blue_of (time_factor i) \<and> uint (p ! 3) = 255"
proof -
  let ?p = "[word_of_int (red_of (time_factor i) x), word_of_int (green_of (time_factor i) y),
             word_of_int (blue_of (time_factor i)), 255 :: 8 word]"
  have "frame_pixel i y x = Some ?p" using frame_pixel_eq[OF assms(3,2), of i] assms(4) by simp
  moreover have "uint (?p ! 0) = red_of (time_factor i) x"
    using red_range[OF assms(1,2)] by (simp add: byte_val)
  moreover have "uint (?p ! 1) = green_of (time_factor i) y"
    using green_range[OF assms(1,3)] by (simp add: byte_val)
  moreover have "uint (?p ! 2) = blue_of (time_factor i)"
    using blue_range[OF assms(1)] by (simp add: byte_val)
  moreover have "uint (?p ! 3) = 255" "length ?p = 4" by simp_all
  ultimately show ?thesis by blast
qed

lemma time_factor_29: "time_factor 29 = 1"
  by (simp add: time_factor_def fl_eval)

lemma time_factor_0: "time_factor 0 = 0"
  by (simp add: time_factor_def fl_div_def)

lemma red_last: "red_of 1 x = 0"
  by (simp add: red_of_def fl_sub_def fl_mul_def py_int_def)

lemma blue_last: "blue_of 1 = 255"
  by (simp add: blue_of_def fl_eval)

lemma covered_29: "covered 29 606 363"
proof -
  have "ant_x 29 0 = 363" "ant_y 29 0 = 606"
    by (simp_all add: ant_x_exact ant_y_exact floor_rat_numeral)
  then have "\<bar>int 363 - ant_x 29 0\<bar> \<le> 2 \<and> \<bar>int 606 - ant_y 29 0\<bar> \<le> 2" by simp
  then show ?thesis unfolding covered_iff by (intro exI[of _ 0]) simp
qed

lemma red_first_table: "\<forall>k < 15. red_of 0 (27 * k) = 17 * int k"
  apply (simp only: unroll)
  apply (simp add: red_of_def width_def fl_eval)
  done

lemma frac_not_int:
  fixes N D k :: int
  assumes "D \<noteq> 0" and "\<not> D dvd N"
  shows "rat_of_int N / of_int D \<noteq> of_int k"
proof
  assume "rat_of_int N / of_int D = of_int k"
  then have "rat_of_int N = of_int (k * D)" using assms(1) by (simp add: field_simps)
  then have "N = k * D" by (simp only: of_int_eq_iff)
  then show False using assms(2) by simp
qed

lemma red_first:
  assumes "x < width"
  shows "red_of (time_factor 0) x = (17 * int x) div 27"
proof (cases "27 dvd x")
  case True
  then obtain k where k: "x = 27 * k" by (rule dvdE)
  then have "k < 15" using assms by (simp add: width_def)
  then show ?thesis using red_first_table k by (simp add: time_factor_0)
next
  case False
  let ?v = "255 * (rat_of_nat x / 405) * (1 - rat_of_nat 0 / 29)"
  have v: "?v = rat_of_int (17 * int x) / of_int 27" by simp
  have "\<not> 27 dvd 17 * int x" using False by presburger
  then have "?v \<noteq> of_int \<lfloor>?v\<rfloor>"
    unfolding v by (intro frac_not_int) simp_all
  then have "red_of (time_factor 0) x = \<lfloor>?v\<rfloor>" using red_close(4)[of 0 x] assms by simp
  then show ?thesis unfolding v floor_divide_of_int_eq .
qed

lemma card_UN_bound:
  assumes "finite I" and "\<And>i. i \<in> I \<Longrightarrow> card (A i) \<le> k"
  shows "card (\<Union>i \<in> I. A i) \<le> card I * k"
proof -
  have "card (\<Union>i \<in> I. A i) \<le> (\<Sum>i \<in> I. card (A i))" using assms(1) by (rule card_UN_le)
  also have "\<dots> \<le> (\<Sum>i \<in> I. k)" using assms(2) by (intro sum_mono) simp
  also have "\<dots> = card I * k" by simp
  finally show ?thesis .
qed

lemma covered_card: "card {(y, x). covered i y x} \<le> 250"
proof -
  let ?S = "\<lambda>ant dy dx. if in_bounds (ant_x i ant + dx) (ant_y i ant + dy)
              then {(nat (ant_y i ant + dy), nat (ant_x i ant + dx))} else {}"
  have five: "card (set [-2..2::int]) = 5" unfolding set_upto by simp
  have ten: "card (set [0..<10]) = 10" unfolding set_upt by simp
  have 1: "card (\<Union>dx \<in> set [-2..2]. ?S ant dy dx) \<le> 5" for ant dy
    using card_UN_bound[of "set [-2..2]" "?S ant dy" 1] unfolding five by simp
  have 2: "card (\<Union>dy \<in> set [-2..2]. \<Union>dx \<in> set [-2..2]. ?S ant dy dx) \<le> 25" for ant
    using card_UN_bound[of "set [-2..2]" "\<lambda>dy. \<Union>dx \<in> set [-2..2]. ?S ant dy dx" 5, OF _ 1]
    unfolding five by simp
  have "card (\<Union>ant \<in> set [0..<10]. \<Union>dy \<in> set [-2..2]. \<Union>dx \<in> set [-2..2]. ?S ant dy dx) \<le> 250"
    using card_UN_bound[of "set [0..<10]"
        "\<lambda>ant. \<Union>dy \<in> set [-2..2]. \<Union>dx \<in> set [-2..2]. ?S ant dy dx" 25, OF _ 2]
    unfolding ten by simp
  then show ?thesis unfolding covered_set .
qed

section \<open>A complete run\<close>

lemma render_frame_Inr: "render_frame i = Inr (projr (render_frame i))"
  using render_frame_pixels[of i] by auto

lemma frame_step_eq: "frame_step i w = Inr (save_frame i (projr (render_frame i)) w)"
  unfolding frame_step_def by (subst render_frame_Inr) simp

lemma for_each_total:
  assumes "\<And>a s. body a s = Inr (g a s)"
  shows "for_each as body s = Inr (fold g as s)"
  by (induction as arbitrary: s) (simp_all add: assms)

lemma map_add_upd_front:
  "m(k \<mapsto> v) ++ M = m ++ (Map.empty(k \<mapsto> v) ++ M)"
  by (rule ext) (simp add: map_add_def split: option.splits)

lemma fold_save_files:
  "files (fold (\<lambda>i. save_frame i (F i)) is w) =
   files w ++ map_of (rev (map (\<lambda>i. (frame_path i, F i)) is))"
proof (induction "is" arbitrary: w)
  case Nil
  then show ?case by simp
next
  case (Cons i "is")
  let ?M = "map_of (rev (map (\<lambda>i. (frame_path i, F i)) is))"
  have sf: "files (save_frame i (F i) w) = (files w)(frame_path i \<mapsto> F i)"
    by (simp add: save_frame_def)
  have "files (fold (\<lambda>i. save_frame i (F i)) (i # is) w) =
      files (fold (\<lambda>i. save_frame i (F i)) is (save_frame i (F i) w))" by simp
  also have "\<dots> = files (save_frame i (F i) w) ++ ?M" by (rule Cons.IH)
  also have "\<dots> = (files w)(frame_path i \<mapsto> F i) ++ ?M" by (simp only: sf)
  also have "\<dots> = files w ++ (Map.empty(frame_path i \<mapsto> F i) ++ ?M)" by (rule map_add_upd_front)
  also have "Map.empty(frame_path i \<mapsto> F i) ++ ?M =
      map_of (rev (map (\<lambda>i. (frame_path i, F i)) (i # is)))" by simp
  finally show ?case .
qed

lemma fold_save_dirs: "dirs (fold (\<lambda>i. save_frame i (F i)) is w) = dirs w"
  by (induction "is" arbitrary: w) (simp_all add: save_frame_def)

lemma fold_save_stdout:
  "stdout (fold (\<lambda>i. save_frame i (F i)) is w) = stdout w @ map (\<lambda>i. ''Created '' @ frame_name i) is"
  by (induction "is" arbitrary: w) (simp_all add: save_frame_def)

lemma replicate_zeros:
  "replicate 3 c = [c, c, c]" "replicate 2 c = [c, c]"
  by (simp_all add: numeral_3_eq_3 numeral_2_eq_2)

lemma frame_names:
  "map frame_name [0..<30] =
    [''frame_0000.png'', ''frame_0001.png'', ''frame_0002.png'', ''frame_0003.png'', ''frame_0004.png'',
     ''frame_0005.png'', ''frame_0006.png'', ''frame_0007.png'', ''frame_0008.png'', ''frame_0009.png'',
     ''frame_0010.png'', ''frame_0011.png'', ''frame_0012.png'', ''frame_0013.png'', ''frame_0014.png'',
     ''frame_0015.png'', ''frame_0016.png'', ''frame_0017.png'', ''frame_0018.png'', ''frame_0019.png'',
     ''frame_0020.png'', ''frame_0021.png'', ''frame_0022.png'', ''frame_0023.png'', ''frame_0024.png'',
     ''frame_0025.png'', ''frame_0026.png'', ''frame_0027.png'', ''frame_0028.png'', ''frame_0029.png'']"
  by (simp add: upt_conv_Cons frame_name_def fmt_04d_def dec.simps replicate_zeros)

lemma frame_name_inj: "i < 30 \<Longrightarrow> j < 30 \<Longrightarrow> frame_name i = frame_name j \<Longrightarrow> i = j"
proof -
  assume a: "i < 30" "j < 30" "frame_name i = frame_name j"
  let ?ns = "map frame_name [0..<30]"
  have d: "distinct ?ns" unfolding frame_names by simp
  have l: "i < length ?ns" "j < length ?ns" using a by simp_all
  have "?ns ! i = frame_name i" "?ns ! j = frame_name j" using a by simp_all
  then have "?ns ! i = ?ns ! j" using a(3) by simp
  then show "i = j" using nth_eq_iff_index_eq[OF d l] by blast
qed

lemma frame_path_inj: "i < 30 \<Longrightarrow> j < 30 \<Longrightarrow> frame_path i = frame_path j \<Longrightarrow> i = j"
  using frame_name_inj[of i j] by (simp add: frame_path_def)

lemma frame_paths_distinct: "distinct (map frame_path [0..<30])"
  unfolding distinct_map using frame_path_inj by (auto simp: inj_on_def)

text \<open>A complete run: what it leaves in the file system and on the console.\<close>

lemma create_test_frames_eq:
  "\<exists>w'. create_test_frames w = Inr (w', frames_dir) \<and>
     files w' = files w ++ map_of (rev (map (\<lambda>i. (frame_path i, projr (render_frame i))) [0..<30])) \<and>
     dirs w' = dirs w \<union> {''simulation_videos'', frames_dir} \<and>
     stdout w' = stdout w @ map (\<lambda>i. ''Created '' @ frame_name i) [0..<30] @ [done_line]"
proof -
  let ?g = "\<lambda>i. save_frame i (projr (render_frame i))"
  let ?w1 = "fold ?g [0..<30] (makedirs w)"
  have "for_each [0..<30] frame_step (makedirs w) = Inr ?w1"
    by (rule for_each_total) (rule frame_step_eq)
  then have "create_test_frames w = Inr (?w1\<lparr>stdout := stdout ?w1 @ [done_line]\<rparr>, frames_dir)"
    by (simp add: create_test_frames_def)
  moreover have "files (?w1\<lparr>stdout := stdout ?w1 @ [done_line]\<rparr>) =
      files w ++ map_of (rev (map (\<lambda>i. (frame_path i, projr (render_frame i))) [0..<30]))"
    by (simp add: fold_save_files makedirs_def del: upt_Suc)
  moreover have "dirs (?w1\<lparr>stdout := stdout ?w1 @ [done_line]\<rparr>) = dirs w \<union> {''simulation_videos'', frames_dir}"
    by (simp add: fold_save_dirs makedirs_def del: upt_Suc)
  moreover have "stdout (?w1\<lparr>stdout := stdout ?w1 @ [done_line]\<rparr>) =
      stdout w @ map (\<lambda>i. ''Created '' @ frame_name i) [0..<30] @ [done_line]"
    by (simp add: fold_save_stdout makedirs_def del: upt_Suc)
  ultimately show ?thesis by blast
qed

lemma written_at:
  assumes "i < 30"
  shows "(m ++ map_of (rev (map (\<lambda>i. (frame_path i, F i)) [0..<30]))) (frame_path i) = Some (F i)"
proof -
  let ?xs = "rev (map (\<lambda>i. (frame_path i, F i)) [0..<30])"
  have "map fst ?xs = rev (map frame_path [0..<30])" by (simp add: rev_map comp_def del: upt_Suc)
  then have d: "distinct (map fst ?xs)" using frame_paths_distinct by (simp del: upt_Suc)
  have "(frame_path i, F i) \<in> set ?xs" using assms by (auto simp del: upt_Suc)
  then have "map_of ?xs (frame_path i) = Some (F i)" using d by (simp only: map_of_eq_Some_iff)
  then show ?thesis by (simp add: map_add_def del: upt_Suc)
qed

lemma written_elsewhere:
  assumes "p \<notin> set (map frame_path [0..<30])"
  shows "(m ++ map_of (rev (map (\<lambda>i. (frame_path i, F i)) [0..<30]))) p = m p"
proof -
  let ?xs = "rev (map (\<lambda>i. (frame_path i, F i)) [0..<30])"
  have "fst ` set ?xs = set (map frame_path [0..<30])" by (force simp del: upt_Suc)
  then have "map_of ?xs p = None" using assms by (simp only: map_of_eq_None_iff not_False_eq_True)
  then show ?thesis by (simp add: map_add_def del: upt_Suc)
qed

lemma rendered_shape:
  "length (projr (render_frame i)) = 720 \<and>
   (\<forall>y < 720. length (projr (render_frame i) ! y) = 405 \<and>
      (\<forall>x < 405. length (projr (render_frame i) ! y ! x) = 4))"
  using render_frame_pixels[of i] by (auto simp: shape_ok_def height_def width_def)

lemma map_add_twice: "m ++ M ++ M = m ++ M"
  by (rule ext) (simp add: map_add_def split: option.splits)


section \<open>The claims\<close>

text \<open>
  C5. For every frame index \<open>i\<close> in \<open>[0, 30)\<close> the frame is produced, it has 720 rows of
  405 pixels, and the alpha channel of every pixel of the finished frame is 255, whether
  the pixel was overwritten by a marker or not.
\<close>

theorem alpha_opaque:
  "i < 30 \<Longrightarrow>
   \<exists>fr. render_frame i = Inr fr \<and> length fr = height \<and>
     (\<forall>y < height. length (fr ! y) = width \<and> (\<forall>x < width. fr ! y ! x ! 3 = 255))"
proof -
  from render_frame_pixels[of i] obtain fr where fr: "render_frame i = Inr fr" "shape_ok fr"
    "\<forall>y < height. \<forall>x < width. fr ! y ! x =
        (if covered i y x then [255, 255, 0, 255]
         else [word_of_int (red_of (time_factor i) x), word_of_int (green_of (time_factor i) y),
               word_of_int (blue_of (time_factor i)), 255])"
    by blast
  have "fr ! y ! x ! 3 = 255" if "y < height" "x < width" for y x
    using fr(3) that by (simp add: eval_nat_numeral)
  then show ?thesis using fr(1,2) by (auto simp: shape_ok_def)
qed

theorem alpha_opaque_witness:
  "\<exists>fr. render_frame 7 = Inr fr \<and> length fr = 720 \<and> length (fr ! 100) = 405 \<and> fr ! 100 ! 200 ! 3 = 255"
  using alpha_opaque[of 7] by (auto simp: height_def width_def)

text \<open>
  C2. For every frame index \<open>i\<close> in \<open>[0, 30)\<close> and marker index \<open>ant\<close> in \<open>[0, 10)\<close>, the
  marker position computed in floating point is
  \<open>ant_x = floor (405 * 0.8 * ((i + ant * 3) mod 30) / 30) + 50\<close> and
  \<open>ant_y = floor (720 * 0.8 * ((i + ant * 2) mod 30) / 30) + 50\<close> in exact arithmetic, and every
  in-bounds pixel \<open>(ant_x + dx, ant_y + dy)\<close> with \<open>dx\<close>, \<open>dy\<close> in \<open>[-2, 2]\<close> is
  \<open>(255, 255, 0, 255)\<close> in the finished frame.
\<close>

theorem markers_drawn:
  "i < 30 \<Longrightarrow> ant < 10 \<Longrightarrow>
   ant_x i ant = \<lfloor>405 * (8 / 10) * of_nat ((i + ant * 3) mod 30) / 30 :: rat\<rfloor> + 50 \<and>
   ant_y i ant = \<lfloor>720 * (8 / 10) * of_nat ((i + ant * 2) mod 30) / 30 :: rat\<rfloor> + 50 \<and>
   (\<forall>dx \<in> {-2..2}. \<forall>dy \<in> {-2..2}.
      in_bounds (ant_x i ant + dx) (ant_y i ant + dy) \<longrightarrow>
      frame_pixel i (nat (ant_y i ant + dy)) (nat (ant_x i ant + dx)) = Some [255, 255, 0, 255])"
proof (intro conjI ballI impI)
  show "ant_x i ant = \<lfloor>405 * (8 / 10) * of_nat ((i + ant * 3) mod 30) / 30 :: rat\<rfloor> + 50"
    by (rule ant_x_exact)
  show "ant_y i ant = \<lfloor>720 * (8 / 10) * of_nat ((i + ant * 2) mod 30) / 30 :: rat\<rfloor> + 50"
    by (rule ant_y_exact)
next
  fix dx dy :: int
  assume a: "ant < 10" and d: "dx \<in> {-2..2}" "dy \<in> {-2..2}"
    and b: "in_bounds (ant_x i ant + dx) (ant_y i ant + dy)"
  let ?y = "nat (ant_y i ant + dy)" and ?x = "nat (ant_x i ant + dx)"
  have lt: "?y < height" "?x < width" using b by (auto simp: in_bounds_def)
  have "covered i ?y ?x" unfolding covered_alt using a d b by auto
  then show "frame_pixel i ?y ?x = Some [255, 255, 0, 255]"
    using frame_pixel_eq[OF lt, of i] by simp
qed

theorem markers_drawn_witness:
  "ant_x 3 2 = 147 \<and> ant_y 3 2 = 184 \<and> frame_pixel 3 185 145 = Some [255, 255, 0, 255]"
proof -
  have h: "(3::nat) < 30" "(2::nat) < 10" by simp_all
  note t = markers_drawn[OF h]
  have x: "ant_x 3 2 = 147" using t by (simp add: floor_rat_numeral)
  have y: "ant_y 3 2 = 184" using t by (simp add: floor_rat_numeral)
  have "in_bounds (147 + (- 2)) (184 + 1)" by (simp add: in_bounds_def width_def height_def)
  moreover have "(- 2 :: int) \<in> {-2..2}" "(1 :: int) \<in> {-2..2}" by simp_all
  ultimately have "frame_pixel 3 (nat (184 + 1)) (nat (147 + (- 2))) = Some [255, 255, 0, 255]"
    using t unfolding x y by blast
  then show ?thesis using x y by simp
qed

text \<open>
  C7. The claim that some marker square is clipped at a frame boundary does not hold of the
  code. As amended: for every frame index, marker index and offsets \<open>dx\<close>, \<open>dy\<close> in
  \<open>[-2, 2]\<close>, the position \<open>(ant_x + dx, ant_y + dy)\<close> lies inside the frame (columns 48
  to 365, rows 48 to 608), so the bounds check always passes, the store is always executed
  and every marker is a complete square of 5 by 5 pixels.
\<close>

theorem markers_never_clipped:
  "i < 30 \<Longrightarrow> ant < 10 \<Longrightarrow> dx \<in> {-2..2} \<Longrightarrow> dy \<in> {-2..2} \<Longrightarrow>
   in_bounds (ant_x i ant + dx) (ant_y i ant + dy) \<and>
   48 \<le> ant_x i ant + dx \<and> ant_x i ant + dx \<le> 365 \<and>
   48 \<le> ant_y i ant + dy \<and> ant_y i ant + dy \<le> 608 \<and>
   draw_ant_pixel (ant_x i ant) (ant_y i ant) dy dx fr =
     set_pixel fr (nat (ant_y i ant + dy)) (nat (ant_x i ant + dx)) [255, 255, 0, 255]"
  using marker_in_bounds[of dx dy i ant] ant_x_range[of i ant] ant_y_range[of i ant]
  by (simp add: draw_ant_pixel_def)

theorem markers_never_clipped_witness:
  "in_bounds (ant_x 29 0 + 2) (ant_y 29 0 + 2) \<and> ant_x 29 0 + 2 \<le> 365 \<and> ant_y 29 0 + 2 \<le> 608"
  using markers_never_clipped[of 29 0 2 2] by simp

text \<open>No frame index, marker index and offsets give a position outside the frame.\<close>

theorem some_marker_clipped_counterexample:
  "\<not> (\<exists>i < 30. \<exists>ant < 10. \<exists>dx \<in> {-2..2}. \<exists>dy \<in> {-2..2}.
        \<not> in_bounds (ant_x i ant + dx) (ant_y i ant + dy))"
  using marker_in_bounds by auto

text \<open>
  C1. The claim that the channels are the floors of the exact expressions, with
  \<open>time_factor = i / 29\<close> exact, does not hold of the code, which computes in double
  precision. As amended: for every frame index \<open>i\<close> in \<open>[0, 30)\<close> and every pixel at column
  \<open>x\<close> in \<open>[0, 405)\<close> and row \<open>y\<close> in \<open>[0, 720)\<close> that no marker overwrites,
  red is \<open>int(255 * (x / 405) * (1 - time_factor))\<close>, green is
  \<open>int(255 * (y / 720) * time_factor)\<close>, every operation rounded to the nearest double,
  where \<open>time_factor\<close> is the double nearest to \<open>i / 29\<close> (within \<open>1 / 2 ^ 53\<close> of it);
  blue is \<open>floor (255 * i / 29)\<close> and alpha is 255. Red and green equal the floor of the
  exact expression whenever the exact expression is not an integer, and are that integer or
  one less when it is.
\<close>

theorem gradient_pixels:
  "i < 30 \<Longrightarrow> x < width \<Longrightarrow> y < height \<Longrightarrow> \<not> covered i y x \<Longrightarrow>
   \<bar>fl_div (of_nat i) 29 - rat_of_nat i / 29\<bar> \<le> 1 / 2 ^ 53 \<and>
   (\<exists>p. frame_pixel i y x = Some p \<and> length p = 4 \<and>
      uint (p ! 0) = py_int (fl_mul (fl_mul 255 (fl_div (of_nat x) 405)) (fl_sub 1 (fl_div (of_nat i) 29))) \<and>
      uint (p ! 1) = py_int (fl_mul (fl_mul 255 (fl_div (of_nat y) 720)) (fl_div (of_nat i) 29)) \<and>
      uint (p ! 2) = \<lfloor>255 * (rat_of_nat i / 29)\<rfloor> \<and>
      uint (p ! 3) = 255 \<and>
      \<lfloor>255 * (rat_of_nat x / 405) * (1 - rat_of_nat i / 29)\<rfloor> - 1 \<le> uint (p ! 0) \<and>
      uint (p ! 0) \<le> \<lfloor>255 * (rat_of_nat x / 405) * (1 - rat_of_nat i / 29)\<rfloor> \<and>
      (255 * (rat_of_nat x / 405) * (1 - rat_of_nat i / 29) \<notin> \<int> \<longrightarrow>
         uint (p ! 0) = \<lfloor>255 * (rat_of_nat x / 405) * (1 - rat_of_nat i / 29)\<rfloor>) \<and>
      \<lfloor>255 * (rat_of_nat y / 720) * (rat_of_nat i / 29)\<rfloor> - 1 \<le> uint (p ! 1) \<and>
      uint (p ! 1) \<le> \<lfloor>255 * (rat_of_nat y / 720) * (rat_of_nat i / 29)\<rfloor> \<and>
      (255 * (rat_of_nat y / 720) * (rat_of_nat i / 29) \<notin> \<int> \<longrightarrow>
         uint (p ! 1) = \<lfloor>255 * (rat_of_nat y / 720) * (rat_of_nat i / 29)\<rfloor>))"
proof -
  assume a: "i < 30" "x < width" "y < height" "\<not> covered i y x"
  let ?R = "255 * (rat_of_nat x / 405) * (1 - rat_of_nat i / 29)"
  let ?G = "255 * (rat_of_nat y / 720) * (rat_of_nat i / 29)"
  from gradient_pixel_bytes[OF a] obtain p where p: "frame_pixel i y x = Some p" "length p = 4"
    "uint (p ! 0) = red_of (time_factor i) x" "uint (p ! 1) = green_of (time_factor i) y"
    "uint (p ! 2) = blue_of (time_factor i)" "uint (p ! 3) = 255" by blast
  have r: "red_of (time_factor i) x =
      py_int (fl_mul (fl_mul 255 (fl_div (of_nat x) 405)) (fl_sub 1 (fl_div (of_nat i) 29)))"
    by (simp add: red_of_def time_factor_def width_def)
  have g: "green_of (time_factor i) y =
      py_int (fl_mul (fl_mul 255 (fl_div (of_nat y) 720)) (fl_div (of_nat i) 29))"
    by (simp add: green_of_def time_factor_def height_def)
  have b: "blue_of (time_factor i) = \<lfloor>255 * (rat_of_nat i / 29)\<rfloor>"
    using blue_table a(1) by simp
  have Rn: "?R \<noteq> of_int \<lfloor>?R\<rfloor>" if "?R \<notin> \<int>" using that by (metis Ints_of_int)
  have Gn: "?G \<noteq> of_int \<lfloor>?G\<rfloor>" if "?G \<notin> \<int>" using that by (metis Ints_of_int)
  have "\<lfloor>?R\<rfloor> - 1 \<le> uint (p ! 0)" "uint (p ! 0) \<le> \<lfloor>?R\<rfloor>" "?R \<notin> \<int> \<longrightarrow> uint (p ! 0) = \<lfloor>?R\<rfloor>"
    unfolding p(3) using red_close(2,3,4)[OF a(1,2)] Rn by blast+
  moreover have "\<lfloor>?G\<rfloor> - 1 \<le> uint (p ! 1)" "uint (p ! 1) \<le> \<lfloor>?G\<rfloor>" "?G \<notin> \<int> \<longrightarrow> uint (p ! 1) = \<lfloor>?G\<rfloor>"
    unfolding p(4) using green_close(2,3,4)[OF a(1,3)] Gn by blast+
  moreover have "\<bar>fl_div (of_nat i) 29 - rat_of_nat i / 29\<bar> \<le> 1 / 2 ^ 53"
    using time_factor_unit(3)[OF a(1)] by (simp add: time_factor_def)
  ultimately show ?thesis using p(1,2,6) p(3)[unfolded r] p(4)[unfolded g] p(5)[unfolded b] by blast
qed

theorem gradient_pixels_witness:
  "\<exists>p. frame_pixel 5 20 10 = Some p \<and> length p = 4 \<and> uint (p ! 0) = 5 \<and> uint (p ! 1) = 1 \<and>
       uint (p ! 2) = 43 \<and> uint (p ! 3) = 255"
proof -
  have h: "(5::nat) < 30" "10 < width" "20 < height" "\<not> covered 5 20 10"
    by (simp_all add: width_def height_def not_covered_left)
  have n: "(255 * (rat_of_nat 10 / 405) * (1 - rat_of_nat 5 / 29)) \<notin> \<int>"
    "(255 * (rat_of_nat 20 / 720) * (rat_of_nat 5 / 29)) \<notin> \<int>"
    by (simp_all add: not_int_rat floor_rat_numeral)
  from gradient_pixels[OF h] n show ?thesis
    by (auto simp: floor_rat_numeral)
qed

text \<open>
  In frame 2 the pixel at column 145 of row 0 is not overwritten by a marker; the exact
  value of its red expression is 85, the code stores 84, and \<open>time_factor\<close> is not \<open>2 / 29\<close>.
\<close>

theorem exact_floor_counterexample:
  "time_factor 2 \<noteq> 2 / 29 \<and> \<not> covered 2 0 145 \<and>
   frame_pixel 2 0 145 = Some [84, 0, 17, 255] \<and>
   \<lfloor>255 * (145 / 405) * (1 - 2 / 29) :: rat\<rfloor> = 85"
proof -
  have c: "\<not> covered 2 0 145" by (simp add: not_covered_top)
  have "blue_of (time_factor 2) = 17" using blue_table by (simp add: floor_rat_numeral)
  then have "frame_pixel 2 0 145 = Some [84, 0, 17, 255]"
    using frame_pixel_eq[of 0 145 2] c by (simp add: width_def height_def red_2_145 green_row_0)
  moreover have "\<lfloor>255 * (145 / 405) * (1 - 2 / 29) :: rat\<rfloor> = 85" by simp
  moreover have "time_factor 2 \<noteq> 2 / 29" unfolding time_factor_2 by simp
  ultimately show ?thesis using c by blast
qed

text \<open>
  C6. The claim that blue is about 255 at every pixel of frame 29, marker pixels included,
  does not hold of the code. As amended: in frame 29 \<open>time_factor\<close> is exactly 1; at every
  pixel that no marker overwrites red is 0 and blue is 255, and at every marker pixel red is
  255 and blue is 0.
\<close>

theorem last_frame:
  "x < width \<Longrightarrow> y < height \<Longrightarrow>
   time_factor 29 = 1 \<and>
   (\<exists>p. frame_pixel 29 y x = Some p \<and>
      (\<not> covered 29 y x \<longrightarrow> uint (p ! 0) = 0 \<and> uint (p ! 2) = 255) \<and>
      (covered 29 y x \<longrightarrow> uint (p ! 0) = 255 \<and> uint (p ! 2) = 0))"
  using frame_pixel_eq[of y x 29]
  by (simp add: time_factor_29 red_last blue_last)

theorem last_frame_witness:
  "(\<exists>p. frame_pixel 29 0 0 = Some p \<and> uint (p ! 0) = 0 \<and> uint (p ! 2) = 255) \<and>
   (\<exists>p. frame_pixel 29 606 363 = Some p \<and> uint (p ! 0) = 255 \<and> uint (p ! 2) = 0)"
proof -
  have "\<not> covered 29 0 0" by (simp add: not_covered_top)
  then have "\<exists>p. frame_pixel 29 0 0 = Some p \<and> uint (p ! 0) = 0 \<and> uint (p ! 2) = 255"
    using last_frame[of 0 0] by (auto simp: width_def height_def)
  moreover have "\<exists>p. frame_pixel 29 606 363 = Some p \<and> uint (p ! 0) = 255 \<and> uint (p ! 2) = 0"
    using last_frame[of 363 606] covered_29 by (auto simp: width_def height_def)
  ultimately show ?thesis by blast
qed

text \<open>
  In frame 29 marker 0 is centred at column 363 of row 606, and the pixel there is
  \<open>(255, 255, 0, 255)\<close>: its blue channel is 0.
\<close>

theorem blue_everywhere_counterexample:
  "covered 29 606 363 \<and> frame_pixel 29 606 363 = Some [255, 255, 0, 255]"
  using frame_pixel_eq[of 606 363 29] covered_29 by (simp add: width_def height_def)

text \<open>
  C8. In frame 0 \<open>time_factor\<close> is 0; at every pixel that no marker overwrites green and
  blue are 0 and red is \<open>floor (255 * x / 405)\<close>, and the red value is monotonically
  non-decreasing in the column index.
\<close>

theorem first_frame:
  "x < width \<Longrightarrow> y < height \<Longrightarrow> \<not> covered 0 y x \<Longrightarrow>
   time_factor 0 = 0 \<and>
   (\<exists>p. frame_pixel 0 y x = Some p \<and>
      uint (p ! 0) = \<lfloor>255 * rat_of_nat x / 405\<rfloor> \<and> uint (p ! 1) = 0 \<and> uint (p ! 2) = 0) \<and>
   (\<forall>x' < width. x \<le> x' \<longrightarrow> red_of (time_factor 0) x \<le> red_of (time_factor 0) x')"
proof -
  assume a: "x < width" "y < height" "\<not> covered 0 y x"
  have z: "(0::nat) < 30" by simp
  from gradient_pixel_bytes[OF z a] obtain p where p: "frame_pixel 0 y x = Some p"
    "uint (p ! 0) = red_of (time_factor 0) x" "uint (p ! 1) = green_of (time_factor 0) y"
    "uint (p ! 2) = blue_of (time_factor 0)" by blast
  have "rat_of_int (17 * int x) / of_int 27 = 255 * rat_of_nat x / 405" by simp
  then have "\<lfloor>255 * rat_of_nat x / 405\<rfloor> = (17 * int x) div 27"
    using floor_divide_of_int_eq[of "17 * int x" 27, where ?'a = rat] by simp
  then have r: "uint (p ! 0) = \<lfloor>255 * rat_of_nat x / 405\<rfloor>"
    using p(2) red_first[OF a(1)] by simp
  have g: "uint (p ! 1) = 0" using p(3)
    by (simp add: time_factor_0 green_of_def fl_mul_def py_int_def)
  have b: "uint (p ! 2) = 0" using p(4)
    by (simp add: time_factor_0 blue_of_def fl_mul_def py_int_def)
  have "red_of (time_factor 0) x \<le> red_of (time_factor 0) x'" if "x' < width" "x \<le> x'" for x'
  proof -
    have "17 * int x \<le> 17 * int x'" using that(2) by simp
    then have "(17 * int x) div 27 \<le> (17 * int x') div 27" by (rule zdiv_mono1) simp
    then show ?thesis using red_first[OF a(1)] red_first[OF that(1)] by simp
  qed
  then show ?thesis using p(1) r g b time_factor_0 by blast
qed

theorem first_frame_witness:
  "(\<exists>p. frame_pixel 0 10 200 = Some p \<and> uint (p ! 0) = 125 \<and> uint (p ! 1) = 0 \<and> uint (p ! 2) = 0) \<and>
   red_of (time_factor 0) 200 \<le> red_of (time_factor 0) 201"
proof -
  have h: "200 < width" "10 < height" "\<not> covered 0 10 200"
    by (simp_all add: width_def height_def not_covered_top)
  have "(201::nat) < width" "(200::nat) \<le> 201" by (simp_all add: width_def)
  with first_frame[OF h] show ?thesis by (auto simp: floor_rat_numeral)
qed

text \<open>
  C9. For every frame index \<open>i\<close> in \<open>[0, 30)\<close> and every pixel, the computed red and green
  values lie in \<open>[0, 254]\<close> and the blue value in \<open>[0, 255]\<close>, alpha being the constant
  255, so storing them into the 8-bit buffer keeps their values: nothing wraps.
\<close>

theorem no_overflow:
  "i < 30 \<Longrightarrow> x < width \<Longrightarrow> y < height \<Longrightarrow>
   0 \<le> red_of (time_factor i) x \<and> red_of (time_factor i) x \<le> 254 \<and>
   0 \<le> green_of (time_factor i) y \<and> green_of (time_factor i) y \<le> 254 \<and>
   0 \<le> blue_of (time_factor i) \<and> blue_of (time_factor i) \<le> 255 \<and>
   uint (word_of_int (red_of (time_factor i) x) :: 8 word) = red_of (time_factor i) x \<and>
   uint (word_of_int (green_of (time_factor i) y) :: 8 word) = green_of (time_factor i) y \<and>
   uint (word_of_int (blue_of (time_factor i)) :: 8 word) = blue_of (time_factor i) \<and>
   uint (word_of_int 255 :: 8 word) = 255"
  using red_range[of i x] green_range[of i y] blue_range[of i]
  by (simp add: byte_val)

theorem no_overflow_witness:
  "red_of (time_factor 2) 145 = 84 \<and>
   uint (word_of_int (red_of (time_factor 2) 145) :: 8 word) = 84 \<and>
   0 \<le> green_of (time_factor 2) 700 \<and> green_of (time_factor 2) 700 \<le> 254 \<and>
   blue_of (time_factor 2) \<le> 255"
  using no_overflow[of 2 145 700] red_2_145 by (simp add: width_def height_def)

text \<open>
  C10. Distinct frame indices give distinct frames: for \<open>i\<close> and \<open>j\<close> in \<open>[0, 30)\<close> with
  \<open>i \<noteq> j\<close> both frames are produced and differ in at least one pixel. The blue channel of
  every pixel that no marker overwrites is \<open>floor (255 * i / 29)\<close>, which is strictly
  increasing in \<open>i\<close>; every frame has such a pixel, the markers covering at most 250
  pixels.
\<close>

theorem frames_distinct:
  "i < 30 \<Longrightarrow> j < 30 \<Longrightarrow> i \<noteq> j \<Longrightarrow>
   (\<exists>fi fj. render_frame i = Inr fi \<and> render_frame j = Inr fj \<and> fi \<noteq> fj \<and>
      (\<exists>y < height. \<exists>x < width. fi ! y ! x \<noteq> fj ! y ! x)) \<and>
   (\<forall>y < height. \<forall>x < width. \<not> covered i y x \<longrightarrow>
      (\<exists>p. frame_pixel i y x = Some p \<and> uint (p ! 2) = \<lfloor>255 * rat_of_nat i / 29\<rfloor>)) \<and>
   (i < j \<longrightarrow> \<lfloor>255 * rat_of_nat i / 29\<rfloor> < \<lfloor>255 * rat_of_nat j / 29\<rfloor>) \<and>
   (\<exists>y < height. \<exists>x < width. \<not> covered i y x) \<and>
   card {(y, x). covered i y x} \<le> 250"
proof -
  assume a: "i < 30" "j < 30" "i \<noteq> j"
  have fl: "\<lfloor>255 * rat_of_nat k / 29\<rfloor> = blue_of (time_factor k)" if "k < 30" for k
    using blue_table that by simp
  have z: "0 < height" "0 < width" by (simp_all add: height_def width_def)
  have nc: "\<not> covered k 0 0" for k by (simp add: not_covered_top)
  have ne: "blue_of (time_factor i) \<noteq> blue_of (time_factor j)"
    using a blue_strict_mono[of i j] blue_strict_mono[of j i] by (cases "i < j") auto
  from render_frame_pixels[of i] obtain fi where fi: "render_frame i = Inr fi"
    "\<forall>y < height. \<forall>x < width. fi ! y ! x =
        (if covered i y x then [255, 255, 0, 255]
         else [word_of_int (red_of (time_factor i) x), word_of_int (green_of (time_factor i) y),
               word_of_int (blue_of (time_factor i)), 255])" by blast
  from render_frame_pixels[of j] obtain fj where fj: "render_frame j = Inr fj"
    "\<forall>y < height. \<forall>x < width. fj ! y ! x =
        (if covered j y x then [255, 255, 0, 255]
         else [word_of_int (red_of (time_factor j) x), word_of_int (green_of (time_factor j) y),
               word_of_int (blue_of (time_factor j)), 255])" by blast
  have "uint (fi ! 0 ! 0 ! 2) = blue_of (time_factor i)"
    using fi(2) z nc[of i] blue_range[OF a(1)] by (simp add: byte_val)
  moreover have "uint (fj ! 0 ! 0 ! 2) = blue_of (time_factor j)"
    using fj(2) z nc[of j] blue_range[OF a(2)] by (simp add: byte_val)
  ultimately have d: "fi ! 0 ! 0 \<noteq> fj ! 0 ! 0" using ne by auto
  then have "fi \<noteq> fj" by auto
  with d z fi(1) fj(1) have 1: "\<exists>fi fj. render_frame i = Inr fi \<and> render_frame j = Inr fj \<and> fi \<noteq> fj \<and>
      (\<exists>y < height. \<exists>x < width. fi ! y ! x \<noteq> fj ! y ! x)" by blast
  have 2: "\<exists>p. frame_pixel i y x = Some p \<and> uint (p ! 2) = \<lfloor>255 * rat_of_nat i / 29\<rfloor>"
    if "y < height" "x < width" "\<not> covered i y x" for y x
    using gradient_pixel_bytes[OF a(1) that(2,1,3)] fl[OF a(1)] by auto
  have 3: "\<lfloor>255 * rat_of_nat i / 29\<rfloor> < \<lfloor>255 * rat_of_nat j / 29\<rfloor>" if "i < j"
    using blue_strict_mono[OF that a(2)] fl[OF a(1)] fl[OF a(2)] by simp
  have 4: "\<exists>y < height. \<exists>x < width. \<not> covered i y x" using z nc[of i] by blast
  show ?thesis using 1 2 3 4 covered_card[of i] by blast
qed

theorem frames_distinct_witness:
  "(\<exists>fi fj. render_frame 3 = Inr fi \<and> render_frame 4 = Inr fj \<and> fi \<noteq> fj) \<and>
   (\<exists>p. frame_pixel 3 0 0 = Some p \<and> uint (p ! 2) = 26) \<and>
   \<lfloor>255 * rat_of_nat 3 / 29\<rfloor> < \<lfloor>255 * rat_of_nat 4 / 29\<rfloor>"
proof -
  have h: "(3::nat) < 30" "(4::nat) < 30" "(3::nat) \<noteq> 4" by simp_all
  have c: "0 < height" "0 < width" "\<not> covered 3 0 0"
    by (simp_all add: height_def width_def not_covered_top)
  note t = frames_distinct[OF h]
  have "\<exists>fi fj. render_frame 3 = Inr fi \<and> render_frame 4 = Inr fj \<and> fi \<noteq> fj" using t by blast
  moreover have "\<exists>p. frame_pixel 3 0 0 = Some p \<and> uint (p ! 2) = \<lfloor>255 * rat_of_nat 3 / 29\<rfloor>"
    using t c by blast
  moreover have "\<lfloor>255 * rat_of_nat 3 / 29\<rfloor> < \<lfloor>255 * rat_of_nat 4 / 29\<rfloor>" using t by simp
  ultimately show ?thesis by (simp add: floor_rat_numeral)
qed

text \<open>
  C3. A complete run returns the frames directory and writes exactly the 30 files
  \<open>frame_0000.png\<close> to \<open>frame_0029.png\<close> (zero-padded index of four digits) of that
  directory, pairwise distinct, leaving every other path as it was; the file of index \<open>i\<close>
  holds the frame rendered for \<open>i\<close>, which has 720 rows of 405 pixels of 4 channels.
\<close>

theorem thirty_frames:
  "\<exists>w'. create_test_frames w = Inr (w', frames_dir) \<and>
     dom (files w') = dom (files w) \<union> set (map frame_path [0..<30]) \<and>
     (\<forall>p. p \<notin> set (map frame_path [0..<30]) \<longrightarrow> files w' p = files w p) \<and>
     length (map frame_path [0..<30]) = 30 \<and> distinct (map frame_path [0..<30]) \<and>
     (\<forall>i < 30. frame_path i = ''simulation_videos/test_png_frames/'' @ frame_name i) \<and>
     map frame_name [0..<30] =
       [''frame_0000.png'', ''frame_0001.png'', ''frame_0002.png'', ''frame_0003.png'', ''frame_0004.png'',
        ''frame_0005.png'', ''frame_0006.png'', ''frame_0007.png'', ''frame_0008.png'', ''frame_0009.png'',
        ''frame_0010.png'', ''frame_0011.png'', ''frame_0012.png'', ''frame_0013.png'', ''frame_0014.png'',
        ''frame_0015.png'', ''frame_0016.png'', ''frame_0017.png'', ''frame_0018.png'', ''frame_0019.png'',
        ''frame_0020.png'', ''frame_0021.png'', ''frame_0022.png'', ''frame_0023.png'', ''frame_0024.png'',
        ''frame_0025.png'', ''frame_0026.png'', ''frame_0027.png'', ''frame_0028.png'', ''frame_0029.png''] \<and>
     (\<forall>i < 30. \<exists>fr. files w' (frame_path i) = Some fr \<and> render_frame i = Inr fr \<and>
        length fr = 720 \<and>
        (\<forall>y < 720. length (fr ! y) = 405 \<and> (\<forall>x < 405. length (fr ! y ! x) = 4)))"
proof -
  let ?F = "\<lambda>i. projr (render_frame i)"
  let ?M = "map_of (rev (map (\<lambda>i. (frame_path i, ?F i)) [0..<30]))"
  from create_test_frames_eq[of w] obtain w' where w': "create_test_frames w = Inr (w', frames_dir)"
    "files w' = files w ++ ?M" by blast
  have "dom ?M = set (map frame_path [0..<30])"
    by (simp add: dom_map_of_conv_image_fst image_comp comp_def del: upt_Suc)
  then have 1: "dom (files w') = dom (files w) \<union> set (map frame_path [0..<30])"
    unfolding w'(2) by (simp del: upt_Suc) blast
  have 2: "files w' p = files w p" if "p \<notin> set (map frame_path [0..<30])" for p
    unfolding w'(2) using that by (rule written_elsewhere)
  have 3: "\<exists>fr. files w' (frame_path i) = Some fr \<and> render_frame i = Inr fr \<and> length fr = 720 \<and>
        (\<forall>y < 720. length (fr ! y) = 405 \<and> (\<forall>x < 405. length (fr ! y ! x) = 4))" if "i < 30" for i
  proof (intro exI[of _ "?F i"] conjI)
    show "files w' (frame_path i) = Some (?F i)" unfolding w'(2) using that by (rule written_at)
    show "render_frame i = Inr (?F i)" by (rule render_frame_Inr)
    show "length (?F i) = 720" using rendered_shape[of i] by (rule conjunct1)
    show "\<forall>y < 720. length (?F i ! y) = 405 \<and> (\<forall>x < 405. length (?F i ! y ! x) = 4)"
      using rendered_shape[of i] by (rule conjunct2)
  qed
  have 4: "frame_path i = ''simulation_videos/test_png_frames/'' @ frame_name i" for i
    by (simp add: frame_path_def frames_dir_def)
  have 5: "length (map frame_path [0..<30]) = 30" by simp
  show ?thesis
  proof (intro exI[of _ w'] conjI)
    show "create_test_frames w = Inr (w', frames_dir)" by (rule w'(1))
    show "dom (files w') = dom (files w) \<union> set (map frame_path [0..<30])" by (rule 1)
    show "\<forall>p. p \<notin> set (map frame_path [0..<30]) \<longrightarrow> files w' p = files w p" using 2 by blast
    show "length (map frame_path [0..<30]) = 30" by (rule 5)
    show "distinct (map frame_path [0..<30])" by (rule frame_paths_distinct)
    show "\<forall>i < 30. frame_path i = ''simulation_videos/test_png_frames/'' @ frame_name i"
      using 4 by blast
    show "\<forall>i < 30. \<exists>fr. files w' (frame_path i) = Some fr \<and> render_frame i = Inr fr \<and>
        length fr = 720 \<and>
        (\<forall>y < 720. length (fr ! y) = 405 \<and> (\<forall>x < 405. length (fr ! y ! x) = 4))"
      using 3 by blast
  qed (rule frame_names)
qed

theorem thirty_frames_witness:
  "\<exists>w'. create_test_frames \<lparr>dirs = {}, files = Map.empty, stdout = []\<rparr> = Inr (w', frames_dir) \<and>
     files w' ''unrelated.txt'' = None \<and>
     frame_path 7 = ''simulation_videos/test_png_frames/frame_0007.png'' \<and>
     (\<exists>fr. files w' ''simulation_videos/test_png_frames/frame_0007.png'' = Some fr \<and>
        length fr = 720 \<and> length (fr ! 100) = 405 \<and> length (fr ! 100 ! 200) = 4)"
  using thirty_frames[of "\<lparr>dirs = {}, files = Map.empty, stdout = []\<rparr>"]
proof (elim exE conjE)
  fix w'
  assume run: "create_test_frames \<lparr>dirs = {}, files = Map.empty, stdout = []\<rparr> = Inr (w', frames_dir)"
    and other: "\<forall>p. p \<notin> set (map frame_path [0..<30]) \<longrightarrow>
                  files w' p = files \<lparr>dirs = {}, files = Map.empty, stdout = []\<rparr> p"
    and path: "\<forall>i < 30. frame_path i = ''simulation_videos/test_png_frames/'' @ frame_name i"
    and names: "map frame_name [0..<30] =
       [''frame_0000.png'', ''frame_0001.png'', ''frame_0002.png'', ''frame_0003.png'', ''frame_0004.png'',
        ''frame_0005.png'', ''frame_0006.png'', ''frame_0007.png'', ''frame_0008.png'', ''frame_0009.png'',
        ''frame_0010.png'', ''frame_0011.png'', ''frame_0012.png'', ''frame_0013.png'', ''frame_0014.png'',
        ''frame_0015.png'', ''frame_0016.png'', ''frame_0017.png'', ''frame_0018.png'', ''frame_0019.png'',
        ''frame_0020.png'', ''frame_0021.png'', ''frame_0022.png'', ''frame_0023.png'', ''frame_0024.png'',
        ''frame_0025.png'', ''frame_0026.png'', ''frame_0027.png'', ''frame_0028.png'', ''frame_0029.png'']"
    and shape: "\<forall>i < 30. \<exists>fr. files w' (frame_path i) = Some fr \<and> render_frame i = Inr fr \<and>
        length fr = 720 \<and>
        (\<forall>y < 720. length (fr ! y) = 405 \<and> (\<forall>x < 405. length (fr ! y ! x) = 4))"
  have "map frame_name [0..<30] ! 7 = frame_name 7" by simp
  then have n: "frame_name 7 = ''frame_0007.png''" unfolding names by simp
  have p: "frame_path 7 = ''simulation_videos/test_png_frames/frame_0007.png''"
    using path n by simp
  have "set (map frame_path [0..<30]) = (\<lambda>i. ''simulation_videos/test_png_frames/'' @ frame_name i) ` {0..<30}"
    using path by (auto simp del: upt_Suc)
  then have "''unrelated.txt'' \<notin> set (map frame_path [0..<30])" by (auto simp del: upt_Suc)
  then have u: "files w' ''unrelated.txt'' = None" using other by simp
  have seven: "(7::nat) < 30" by simp
  have "\<exists>fr. files w' (frame_path 7) = Some fr \<and> render_frame 7 = Inr fr \<and>
        length fr = 720 \<and>
        (\<forall>y < 720. length (fr ! y) = 405 \<and> (\<forall>x < 405. length (fr ! y ! x) = 4))"
    using shape[rule_format, OF seven] .
  then obtain fr where "files w' (frame_path 7) = Some fr" "length fr = 720"
    "\<forall>y < 720. length (fr ! y) = 405 \<and> (\<forall>x < 405. length (fr ! y ! x) = 4)" by (elim exE conjE)
  then have "\<exists>fr. files w' ''simulation_videos/test_png_frames/frame_0007.png'' = Some fr \<and>
        length fr = 720 \<and> length (fr ! 100) = 405 \<and> length (fr ! 100 ! 200) = 4"
    unfolding p by (intro exI[of _ fr]) simp
  then show ?thesis using run u p by blast
qed

text \<open>
  C4. The generator is deterministic: from any two initial file systems the runs complete
  and leave the same contents in the file of every frame index \<open>i\<close> in \<open>[0, 30)\<close>, namely
  the buffer rendered for \<open>i\<close>, which depends on \<open>i\<close> alone; running the generator again
  on its own result changes neither the files nor the directories.
\<close>

theorem deterministic_run:
  "\<exists>w1' w2' w1''.
     create_test_frames w1 = Inr (w1', frames_dir) \<and>
     create_test_frames w2 = Inr (w2', frames_dir) \<and>
     create_test_frames w1' = Inr (w1'', frames_dir) \<and>
     (\<forall>i < 30. files w1' (frame_path i) = files w2' (frame_path i) \<and>
        (\<exists>fr. render_frame i = Inr fr \<and> files w1' (frame_path i) = Some fr)) \<and>
     files w1'' = files w1' \<and> dirs w1'' = dirs w1'"
proof -
  let ?F = "\<lambda>i. projr (render_frame i)"
  let ?M = "map_of (rev (map (\<lambda>i. (frame_path i, ?F i)) [0..<30]))"
  let ?D = "{''simulation_videos'', frames_dir}"
  from create_test_frames_eq[of w1] obtain w1' where 1: "create_test_frames w1 = Inr (w1', frames_dir)"
    "files w1' = files w1 ++ ?M" "dirs w1' = dirs w1 \<union> ?D" by blast
  from create_test_frames_eq[of w2] obtain w2' where 2: "create_test_frames w2 = Inr (w2', frames_dir)"
    "files w2' = files w2 ++ ?M" by blast
  from create_test_frames_eq[of w1'] obtain w1'' where 3: "create_test_frames w1' = Inr (w1'', frames_dir)"
    "files w1'' = files w1' ++ ?M" "dirs w1'' = dirs w1' \<union> ?D" by blast
  have a: "files w1' (frame_path i) = files w2' (frame_path i) \<and>
      (\<exists>fr. render_frame i = Inr fr \<and> files w1' (frame_path i) = Some fr)" if "i < 30" for i
  proof -
    have "files w1' (frame_path i) = Some (?F i)" unfolding 1(2) using that by (rule written_at)
    moreover have "files w2' (frame_path i) = Some (?F i)" unfolding 2(2) using that by (rule written_at)
    ultimately show ?thesis using render_frame_Inr[of i] by auto
  qed
  have b: "files w1'' = files w1'" unfolding 3(2) 1(2) by (rule map_add_twice)
  have c: "dirs w1'' = dirs w1'" unfolding 3(3) 1(3) by blast
  show ?thesis
  proof (rule exI[of _ w1'], rule exI[of _ w2'], rule exI[of _ w1''], intro conjI)
    show "\<forall>i < 30. files w1' (frame_path i) = files w2' (frame_path i) \<and>
        (\<exists>fr. render_frame i = Inr fr \<and> files w1' (frame_path i) = Some fr)" using a by blast
  qed (rule 1(1) 2(1) 3(1) b c)+
qed

theorem deterministic_run_witness:
  "\<exists>w1' w2'.
     create_test_frames \<lparr>dirs = {}, files = Map.empty, stdout = []\<rparr> = Inr (w1', frames_dir) \<and>
     create_test_frames \<lparr>dirs = {''tmp''}, files = [frame_path 7 \<mapsto> []], stdout = [''hello'']\<rparr>
       = Inr (w2', frames_dir) \<and>
     files w1' (frame_path 7) = files w2' (frame_path 7) \<and>
     (\<exists>fr. render_frame 7 = Inr fr \<and> files w2' (frame_path 7) = Some fr)"
  using deterministic_run[of "\<lparr>dirs = {}, files = Map.empty, stdout = []\<rparr>"
      "\<lparr>dirs = {''tmp''}, files = [frame_path 7 \<mapsto> []], stdout = [''hello'']\<rparr>"]
proof (elim exE conjE)
  fix w1' w2' w1''
  assume r1: "create_test_frames \<lparr>dirs = {}, files = Map.empty, stdout = []\<rparr> = Inr (w1', frames_dir)"
    and r2: "create_test_frames \<lparr>dirs = {''tmp''}, files = [frame_path 7 \<mapsto> []], stdout = [''hello'']\<rparr>
       = Inr (w2', frames_dir)"
    and eq: "\<forall>i < 30. files w1' (frame_path i) = files w2' (frame_path i) \<and>
        (\<exists>fr. render_frame i = Inr fr \<and> files w1' (frame_path i) = Some fr)"
  have seven: "(7::nat) < 30" by simp
  note e = eq[rule_format, OF seven]
  have "files w1' (frame_path 7) = files w2' (frame_path 7)" using e by (rule conjunct1)
  moreover from e have "\<exists>fr. render_frame 7 = Inr fr \<and> files w2' (frame_path 7) = Some fr" by auto
  ultimately show ?thesis using r1 r2 by blast
qed

end
